theory Spec2Isabelle
  imports Complex_Main
begin

section \<open>Content-aware video scaling: the frame pipeline of content_aware_scale.py\<close>

text \<open>
  The module reads a video frame by frame, resizes every frame with the external
  seam-carving library, writes the resized frames to a video writer and writes a progress
  percentage to a text file. The model follows the source function by function.

  A finite Python float is the rational number it denotes, and an arithmetic operation
  on floats is the exact operation followed by the rounding to the nearest double, ties
  to even (\<open>round_double\<close>). The sign of a zero is not modelled: nothing in the module
  reads it. The scale factors come from the command line and may be infinite or not a
  number. The closing statistics are only printed and keep their exact quotients. The
  external libraries (OpenCV, seam_carving, the clock, the worker pool's scheduling) are
  parameters of the model.
\<close>

subsection \<open>Values and exceptions\<close>

datatype py_error = ZeroDivisionError | OverflowError | ValueError | Raised string

text \<open>An image is a numpy array of shape (height, width, channels); only the shape matters
  to the pipeline, the pixel data is carried along.\<close>

record image =
  height :: nat
  width :: nat
  pixels :: "nat list"

datatype colour_code = COLOR_BGR2RGB | COLOR_RGB2BGR

subsection \<open>Doubles\<close>

text \<open>The integer nearest to a rational, ties to the even neighbour.\<close>

definition round_half_even :: "rat \<Rightarrow> int" where
  "round_half_even x =
     (let f = \<lfloor>x\<rfloor>; r = x - of_int f
      in if r < 1 / 2 then f else if 1 / 2 < r then f + 1 else if even f then f else f + 1)"

function floor_log2 :: "int \<Rightarrow> int" where
  "floor_log2 n = (if n < 2 then 0 else floor_log2 (n div 2) + 1)"
  by pat_completeness auto
termination
  by (relation "measure nat") auto

declare floor_log2.simps [simp del]

text \<open>The binade of a positive rational: the \<open>k\<close> with \<open>2^k \<le> x < 2^(k+1)\<close>.\<close>

definition binade :: "rat \<Rightarrow> int" where
  "binade x =
     (if 1 \<le> x then floor_log2 \<lfloor>x\<rfloor>
      else if 0 < x then - (floor_log2 (\<lceil>1 / x\<rceil> - 1) + 1)
      else 0)"

text \<open>The exponent of the last place of a double in the binade of \<open>x\<close>: 53 significant
  bits, and never below \<open>2^-1074\<close>, the spacing of the subnormal doubles.\<close>

definition ulp_exp :: "rat \<Rightarrow> int" where
  "ulp_exp x = max (binade x - 52) (- 1074)"

definition round_magnitude :: "rat \<Rightarrow> rat" where
  "round_magnitude x =
     (if x = 0 then 0
      else of_int (round_half_even (x / 2 powi ulp_exp x)) * 2 powi ulp_exp x)"

text \<open>The double nearest to a rational, ties to even, with no bound on the exponent
  from above; \<open>float_result\<close> below adds the overflow to infinity.\<close>

definition round_double :: "rat \<Rightarrow> rat" where
  "round_double x = (if x < 0 then - round_magnitude (- x) else round_magnitude x)"

datatype py_float = Finite rat | PosInf | NegInf | NaN

definition largest_double :: rat where
  "largest_double = (2 ^ 53 - 1) * 2 ^ 971"

text \<open>The float that an arithmetic operation returns for the exact result \<open>x\<close>.\<close>

definition float_result :: "rat \<Rightarrow> py_float" where
  "float_result x =
     (let r = round_double x
      in if largest_double < r then PosInf else if r < - largest_double then NegInf
         else Finite r)"

fun float_mul :: "py_float \<Rightarrow> py_float \<Rightarrow> py_float" where
  "float_mul NaN b = NaN"
| "float_mul a NaN = NaN"
| "float_mul (Finite a) (Finite b) = float_result (a * b)"
| "float_mul (Finite a) PosInf = (if a = 0 then NaN else if 0 < a then PosInf else NegInf)"
| "float_mul (Finite a) NegInf = (if a = 0 then NaN else if 0 < a then NegInf else PosInf)"
| "float_mul PosInf (Finite b) = (if b = 0 then NaN else if 0 < b then PosInf else NegInf)"
| "float_mul NegInf (Finite b) = (if b = 0 then NaN else if 0 < b then NegInf else PosInf)"
| "float_mul PosInf PosInf = PosInf"
| "float_mul PosInf NegInf = NegInf"
| "float_mul NegInf PosInf = NegInf"
| "float_mul NegInf NegInf = PosInf"

text \<open>An \<open>int\<close> operand of a float operation is converted first; the conversion raises
  when the integer is too large for a float.\<close>

definition float_of_int :: "int \<Rightarrow> py_error + py_float" where
  "float_of_int n =
     (case float_result (of_int n) of Finite r \<Rightarrow> Inr (Finite r) | _ \<Rightarrow> Inl OverflowError)"

text \<open>\<open>int(x)\<close> on a float truncates towards zero; it raises \<open>OverflowError\<close> on an
  infinity and \<open>ValueError\<close> on a NaN.\<close>

definition truncate_rat :: "rat \<Rightarrow> int" where
  "truncate_rat x = (if 0 \<le> x then \<lfloor>x\<rfloor> else \<lceil>x\<rceil>)"

definition py_int :: "py_float \<Rightarrow> py_error + int" where
  "py_int x =
     (case x of
        Finite r \<Rightarrow> Inr (truncate_rat r)
      | NaN \<Rightarrow> Inl ValueError
      | _ \<Rightarrow> Inl OverflowError)"

text \<open>\<open>a / b\<close> on two integers: the correctly rounded quotient, or \<open>ZeroDivisionError\<close>.
  The dividend here is \<open>int(cap.get(...))\<close>, the integer value of a double holding a
  frame index, and the divisor a non-zero integer: the quotient is at most the dividend
  in magnitude and stays in the range of the doubles, and so does its hundredfold for
  any frame index a capture can reach. The overflow of these two operations is
  therefore left out, and a percentage is a finite double.\<close>

definition int_truediv :: "int \<Rightarrow> int \<Rightarrow> py_error + rat" where
  "int_truediv a b =
     (if b = 0 then Inl ZeroDivisionError else Inr (round_double (of_int a / of_int b)))"

text \<open>The divisions of the closing statistics, with their exact quotients.\<close>

definition py_div :: "rat \<Rightarrow> rat \<Rightarrow> py_error + rat" where
  "py_div a b = (if b = 0 then Inl ZeroDivisionError else Inr (a / b))"

subsection \<open>The external world\<close>

text \<open>
  The collaborators that the module imports. A call either raises (\<open>Inl\<close>) or returns
  (\<open>Inr\<close>); \<open>resize\<close> may also return \<open>None\<close>. The field \<open>completion\<close> is the
  order in which the pool's workers happen to finish, one schedule per \<open>starmap\<close> call.
\<close>

record env =
  cvtColor :: "image \<Rightarrow> colour_code \<Rightarrow> py_error + image"
  resize :: "image \<Rightarrow> int \<times> int \<Rightarrow> py_error + image option"
  time_start :: rat
  time_end :: rat
  completion :: "nat list list"

text \<open>The input file as \<open>cv2.VideoCapture\<close> presents it: whether the path exists and
  opens, the two properties the code reads (after \<open>int(...)\<close>), and the frames that
  \<open>read\<close> delivers in order.\<close>

record video =
  path_exists :: bool
  can_open :: bool
  prop_fps :: int
  prop_frame_count :: int
  frames :: "image list"

text \<open>\<open>cap.read()\<close> at cursor position \<open>p\<close>: the frame and the advanced cursor, or
  \<open>ret = False\<close>.\<close>

definition cap_read :: "video \<Rightarrow> nat \<Rightarrow> image option \<times> nat" where
  "cap_read v p = (if p < length (frames v) then (Some (frames v ! p), Suc p) else (None, p))"

subsection \<open>Formatting a percentage with two decimals\<close>

definition digit_char :: "nat \<Rightarrow> char" where
  "digit_char d = ''0123456789'' ! (d mod 10)"

function string_of_nat :: "nat \<Rightarrow> string" where
  "string_of_nat n =
     (if n < 10 then [digit_char n] else string_of_nat (n div 10) @ [digit_char (n mod 10)])"
  by pat_completeness auto
termination
  by (relation "measure id") auto

declare string_of_nat.simps [simp del]

text \<open>\<open>format(p, '.2f')\<close> of a finite float: the number of hundredths nearest to the
  exact value of the float, ties to even.\<close>

definition format_2f :: "rat \<Rightarrow> string" where
  "format_2f p =
     (let h = nat (round_half_even (\<bar>p\<bar> * 100))
      in (if p < 0 then ''-'' else []) @ string_of_nat (h div 100) @ ''.''
         @ [digit_char (h div 10), digit_char h])"

definition progress_line :: "rat \<Rightarrow> string" where
  "progress_line p = format_2f p @ [CHR 0x0A]"

subsection \<open>seam_carve, process_frame, process_batch\<close>

text \<open>Lines 13 and 14: \<open>int(image.shape[1] * scale_x)\<close> and
  \<open>int(image.shape[0] * scale_y)\<close>.\<close>

definition new_width :: "image \<Rightarrow> py_float \<Rightarrow> py_error + int" where
  "new_width img scale_x =
     (case float_of_int (int (width img)) of
        Inl err \<Rightarrow> Inl err
      | Inr w \<Rightarrow> py_int (float_mul w scale_x))"

definition new_height :: "image \<Rightarrow> py_float \<Rightarrow> py_error + int" where
  "new_height img scale_y =
     (case float_of_int (int (height img)) of
        Inl err \<Rightarrow> Inl err
      | Inr h \<Rightarrow> py_int (float_mul h scale_y))"

text \<open>The two \<open>print\<close> calls of \<open>seam_carve\<close> have no effect on the result: an empty
  carved image is returned as it is. \<open>resize\<close> is called with the pair
  \<open>(new_height, new_width)\<close>, as line 17 writes it.\<close>

definition seam_carve :: "env \<Rightarrow> image \<Rightarrow> py_float \<Rightarrow> py_float \<Rightarrow> py_error + image option" where
  "seam_carve e img scale_x scale_y =
     (case new_width img scale_x of
        Inl err \<Rightarrow> Inl err
      | Inr nw \<Rightarrow>
          (case new_height img scale_y of
             Inl err \<Rightarrow> Inl err
           | Inr nh \<Rightarrow> resize e img (nh, nw)))"

definition process_frame :: "env \<Rightarrow> image \<Rightarrow> py_float \<Rightarrow> py_float \<Rightarrow> py_error + image option" where
  "process_frame e frame scale_x scale_y =
     (case cvtColor e frame COLOR_BGR2RGB of
        Inl err \<Rightarrow> Inl err
      | Inr frame_rgb \<Rightarrow>
          (case seam_carve e frame_rgb scale_x scale_y of
             Inl err \<Rightarrow> Inl err
           | Inr None \<Rightarrow> Inr None
           | Inr (Some carved_frame) \<Rightarrow>
               (case cvtColor e carved_frame COLOR_RGB2BGR of
                  Inl err \<Rightarrow> Inl err
                | Inr res \<Rightarrow> Inr (Some res))))"

text \<open>A list comprehension whose element expression may raise: the first exception, in
  list order, ends it.\<close>

fun comprehension :: "('a \<Rightarrow> py_error + 'b) \<Rightarrow> 'a list \<Rightarrow> py_error + 'b list" where
  "comprehension f [] = Inr []"
| "comprehension f (x # xs) =
     (case f x of
        Inl err \<Rightarrow> Inl err
      | Inr y \<Rightarrow> (case comprehension f xs of Inl err \<Rightarrow> Inl err | Inr ys \<Rightarrow> Inr (y # ys)))"

definition process_batch ::
  "env \<Rightarrow> image list \<Rightarrow> py_float \<Rightarrow> py_float \<Rightarrow> py_error + image option list" where
  "process_batch e frms scale_x scale_y =
     comprehension (\<lambda>frame. process_frame e frame scale_x scale_y) frms"

subsection \<open>The worker pool: starmap\<close>

text \<open>
  \<open>pool.starmap\<close> hands the tasks to the workers, which finish in an order the caller
  does not control. The schedule \<open>picks\<close> chooses, at each step, which of the pending
  tasks finishes next (the pick is taken modulo the number of pending tasks, so every
  schedule is meaningful and every completion order arises from some schedule).
\<close>

function arrivals :: "nat list \<Rightarrow> 'a list \<Rightarrow> 'a list" where
  "arrivals picks pending =
     (if pending = [] then []
      else let k = (case picks of [] \<Rightarrow> 0 | p # _ \<Rightarrow> p mod length pending)
           in pending ! k # arrivals (tl picks) (take k pending @ drop (Suc k) pending))"
  by pat_completeness auto
termination
proof (relation "measure (\<lambda>(picks, pending). length pending)", goal_cases)
  case 1
  show ?case by simp
next
  case (2 picks pending k)
  then have "k < length pending"
    by (cases picks) auto
  then show ?case by simp
qed

declare arrivals.simps [simp del]

text \<open>Each finished task stores its result in the slot of its own index; a task that
  raised stores nothing.\<close>

definition store :: "'b option list \<Rightarrow> nat \<times> (py_error + 'b) \<Rightarrow> 'b option list" where
  "store slots t = (case snd t of Inr y \<Rightarrow> slots[fst t := Some y] | Inl err \<Rightarrow> slots)"

definition failures :: "(nat \<times> (py_error + 'b)) list \<Rightarrow> py_error list" where
  "failures ts = List.map_filter (\<lambda>t. case snd t of Inl err \<Rightarrow> Some err | Inr y \<Rightarrow> None) ts"

text \<open>The call returns when every task has finished: it re-raises the first exception
  that arrived, if any, and otherwise returns the slots in index order.\<close>

definition starmap :: "nat list \<Rightarrow> ('a \<Rightarrow> py_error + 'b) \<Rightarrow> 'a list \<Rightarrow> py_error + 'b list" where
  "starmap picks f args =
     (let finished = arrivals picks (zip [0..<length args] (map f args))
      in case failures finished of
           err # _ \<Rightarrow> Inl err
         | [] \<Rightarrow> Inr (map the (foldl store (replicate (length args) None) finished)))"

subsection \<open>The driver: process_video\<close>

text \<open>
  The local state of \<open>process_video\<close> once the writer is open. \<open>out\<close> is the sequence of
  frames written to the video writer, \<open>progress_file\<close> the content of the progress file
  since it was opened with mode \<open>'w'\<close>. Two fields record the run for the statements
  below and influence nothing: \<open>batches\<close> (the argument of every \<open>starmap\<close> call) and
  \<open>reported\<close> (every value of \<open>progress_percentage\<close> that was written).
\<close>

record run_state =
  frame_buffer :: "image list"
  total_processed_frames :: nat
  out :: "image list"
  out_size :: "nat \<times> nat"
  out_fps :: int
  progress_file :: string
  sched :: "nat list list"
  batches :: "image list list"
  reported :: "rat list"

definition batch_size :: nat where
  "batch_size = 32"

text \<open>The loop over \<open>processed_frames\<close>: a frame that is not \<open>None\<close> is written and
  counted.\<close>

fun write_frames :: "image option list \<Rightarrow> run_state \<Rightarrow> run_state" where
  "write_frames [] s = s"
| "write_frames (processed_frame # rest) s =
     write_frames rest
       (case processed_frame of
          None \<Rightarrow> s
        | Some fr \<Rightarrow> s\<lparr>out := out s @ [fr], total_processed_frames := total_processed_frames s + 1\<rparr>)"

text \<open>The block that the source has twice, word for word (at a full buffer and at the end
  of the stream): \<open>starmap\<close> over the buffer, then the write loop.\<close>

definition run_batch ::
  "env \<Rightarrow> py_float \<Rightarrow> py_float \<Rightarrow> run_state \<Rightarrow> py_error + run_state" where
  "run_batch e scale_x scale_y s =
     (case starmap (case sched s of [] \<Rightarrow> [] | picks # _ \<Rightarrow> picks)
             (\<lambda>(f, x, y). process_frame e f x y)
             (map (\<lambda>f. (f, scale_x, scale_y)) (frame_buffer s)) of
        Inl err \<Rightarrow> Inl err
      | Inr processed_frames \<Rightarrow>
          Inr (write_frames processed_frames
                 (s\<lparr>sched := tl (sched s), batches := batches s @ [frame_buffer s]\<rparr>)))"

text \<open>The \<open>while True\<close> loop, with the cursor of the capture as the argument \<open>p\<close>.\<close>

function stream_loop ::
  "env \<Rightarrow> video \<Rightarrow> py_float \<Rightarrow> py_float \<Rightarrow> int \<Rightarrow> nat \<Rightarrow> run_state
     \<Rightarrow> py_error + run_state" where
  "stream_loop e v scale_x scale_y total_frames p s =
     (case cap_read v p of
        (None, p') \<Rightarrow>
          (if frame_buffer s \<noteq> [] then run_batch e scale_x scale_y s else Inr s)
      | (Some frame, p') \<Rightarrow>
          (let s1 = s\<lparr>frame_buffer := frame_buffer s @ [frame]\<rparr> in
           case (if batch_size \<le> length (frame_buffer s1)
                 then (case run_batch e scale_x scale_y s1 of
                         Inl err \<Rightarrow> Inl err
                       | Inr s2 \<Rightarrow> Inr (s2\<lparr>frame_buffer := []\<rparr>))
                 else Inr s1) of
             Inl err \<Rightarrow> Inl err
           | Inr s3 \<Rightarrow>
               (let current_frame = p' in
                case int_truediv (int current_frame) total_frames of
                  Inl err \<Rightarrow> Inl err
                | Inr q \<Rightarrow>
                    (let progress_percentage = round_double (q * 100) in
                     stream_loop e v scale_x scale_y total_frames p'
                       (s3\<lparr>progress_file := progress_file s3 @ progress_line progress_percentage,
                           reported := reported s3 @ [progress_percentage]\<rparr>)))))"
  by pat_completeness auto
termination
  by (relation "measure (\<lambda>(e, v, sx, sy, t, p, s). length (frames v) - p)")
     (auto simp: cap_read_def split: if_splits)

declare stream_loop.simps [simp del]

text \<open>The closing statistics; both divisions are guarded in the source.\<close>

definition statistics :: "nat \<Rightarrow> rat \<Rightarrow> py_error + rat \<times> rat" where
  "statistics total_processed total_time =
     (case (if 0 < total_time then py_div (of_nat total_processed) total_time else Inr 0) of
        Inl err \<Rightarrow> Inl err
      | Inr average_fps \<Rightarrow>
          (case (if 0 < total_processed then py_div total_time (of_nat total_processed)
                 else Inr 0) of
             Inl err \<Rightarrow> Inl err
           | Inr average_spf \<Rightarrow> Inr (average_fps, average_spf)))"

text \<open>How a call of \<open>process_video\<close> ends: one of the four early returns, an uncaught
  exception, or the normal end with the final state, the elapsed time and the
  statistics.\<close>

datatype run_result =
    NotFound
  | NotOpened
  | FirstFrameUnreadable
  | FirstFrameFailed
  | Crashed py_error
  | Done run_state rat "rat \<times> rat"

definition process_video :: "env \<Rightarrow> video \<Rightarrow> py_float \<Rightarrow> py_float \<Rightarrow> run_result" where
  "process_video e v scale_x scale_y =
     (if \<not> path_exists v then NotFound
      else if \<not> can_open v then NotOpened
      else
        let fps = prop_fps v; total_frames = prop_frame_count v in
        case cap_read v 0 of
          (None, p) \<Rightarrow> FirstFrameUnreadable
        | (Some frame, p) \<Rightarrow>
            (case cvtColor e frame COLOR_BGR2RGB of
               Inl err \<Rightarrow> Crashed err
             | Inr frame_rgb \<Rightarrow>
                 (case seam_carve e frame_rgb scale_x scale_y of
                    Inl err \<Rightarrow> Crashed err
                  | Inr None \<Rightarrow> FirstFrameFailed
                  | Inr (Some carved_frame) \<Rightarrow>
                      (let rewound = 0;
                           s0 = \<lparr>frame_buffer = [], total_processed_frames = 0, out = [],
                                 out_size = (width carved_frame, height carved_frame),
                                 out_fps = fps, progress_file = [], sched = completion e,
                                 batches = [], reported = []\<rparr>
                       in case stream_loop e v scale_x scale_y total_frames rewound s0 of
                            Inl err \<Rightarrow> Crashed err
                          | Inr s \<Rightarrow>
                              (let total_time = time_end e - time_start e in
                               case statistics (total_processed_frames s) total_time of
                                 Inl err \<Rightarrow> Crashed err
                               | Inr st \<Rightarrow> Done s total_time st)))))"

subsection \<open>Notions used in the statements\<close>

text \<open>Consecutive pieces of length \<open>n\<close>, the last one shorter when the length is not a
  multiple of \<open>n\<close>.\<close>

function chunks :: "nat \<Rightarrow> 'a list \<Rightarrow> 'a list list" where
  "chunks n xs = (if n = 0 \<or> xs = [] then [] else take n xs # chunks n (drop n xs))"
  by pat_completeness auto
termination
  by (relation "measure (\<lambda>(n, xs). length xs)") auto

declare chunks.simps [simp del]

text \<open>The entries of a result list that are not \<open>None\<close>, in order.\<close>

definition not_none :: "'a option list \<Rightarrow> 'a list" where
  "not_none rs = List.map_filter (\<lambda>r. r) rs"

text \<open>The frames for which \<open>process_frame\<close> returns a frame, transformed, in order.\<close>

definition successes :: "env \<Rightarrow> py_float \<Rightarrow> py_float \<Rightarrow> image list \<Rightarrow> image list" where
  "successes e scale_x scale_y fs =
     List.map_filter
       (\<lambda>f. case process_frame e f scale_x scale_y of Inr (Some y) \<Rightarrow> Some y | _ \<Rightarrow> None) fs"

text \<open>The percentage after \<open>k\<close> frames of a source that announces \<open>announced\<close>
  frames, as the doubles compute it: the quotient is rounded, then the product.\<close>

definition percent :: "nat \<Rightarrow> int \<Rightarrow> rat" where
  "percent k announced = round_double (round_double (of_nat k / of_int announced) * 100)"

text \<open>The percentages after the frames \<open>p + 1, \<dots>, n\<close>.\<close>

definition percentages :: "int \<Rightarrow> nat \<Rightarrow> nat \<Rightarrow> rat list" where
  "percentages announced p n = map (\<lambda>k. percent k announced) [Suc p..<Suc n]"

text \<open>What the loop has done when it returns \<open>s'\<close>, started at cursor \<open>p\<close> in state
  \<open>s\<close>: the frames still to be handled are the buffered ones and the unread ones.\<close>

definition loop_post ::
  "env \<Rightarrow> video \<Rightarrow> py_float \<Rightarrow> py_float \<Rightarrow> int \<Rightarrow> nat \<Rightarrow> run_state \<Rightarrow> run_state
     \<Rightarrow> bool" where
  "loop_post e v scale_x scale_y announced p s s' =
     (let todo = frame_buffer s @ drop p (frames v);
          percs = percentages announced p (length (frames v))
      in list_all (\<lambda>f. \<not> isl (process_frame e f scale_x scale_y)) todo
         \<and> (announced \<noteq> 0 \<or> length (frames v) \<le> p)
         \<and> out s' = out s @ successes e scale_x scale_y todo
         \<and> total_processed_frames s' =
               total_processed_frames s + length (successes e scale_x scale_y todo)
         \<and> batches s' = batches s @ chunks batch_size todo
         \<and> reported s' = reported s @ percs
         \<and> progress_file s' = progress_file s @ concat (map progress_line percs)
         \<and> out_size s' = out_size s \<and> out_fps s' = out_fps s)"

text \<open>The local state when the loop is entered, after the writer was opened with the
  shape of the carved first frame.\<close>

definition initial_state :: "env \<Rightarrow> video \<Rightarrow> image \<Rightarrow> run_state" where
  "initial_state e v carved_frame =
     \<lparr>frame_buffer = [], total_processed_frames = 0, out = [],
      out_size = (width carved_frame, height carved_frame), out_fps = prop_fps v,
      progress_file = [], sched = completion e, batches = [], reported = []\<rparr>"

text \<open>The final state of a run that reached its normal end.\<close>

definition final_state :: "run_result \<Rightarrow> run_state option" where
  "final_state r = (case r of Done s total_time st \<Rightarrow> Some s | _ \<Rightarrow> None)"

text \<open>Python's \<open>round\<close> of a finite float: the nearest integer, ties to the even
  neighbour.\<close>

definition py_round :: "rat \<Rightarrow> int" where
  "py_round x = round_half_even x"

subsection \<open>A small concrete world\<close>

text \<open>A stand-in for the libraries: the colour conversion reverses the pixel data; the
  resize reads its size argument as (width, height), as the seam_carving library
  documents it, and returns an image of that shape; it returns \<open>None\<close> for an image
  without pixel data and raises for an image of height zero.\<close>

definition toy_env :: "nat list list \<Rightarrow> env" where
  "toy_env order =
     \<lparr>cvtColor = (\<lambda>img code. Inr (img\<lparr>pixels := rev (pixels img)\<rparr>)),
      resize = (\<lambda>img sz.
         if height img = 0 then Inl (Raised ''empty source'')
         else if pixels img = [] then Inr None
         else Inr (Some \<lparr>height = nat (snd sz), width = nat (fst sz), pixels = pixels img\<rparr>)),
      time_start = 10, time_end = 12, completion = order\<rparr>"

definition toy_frame :: "nat \<Rightarrow> image" where
  "toy_frame n = \<lparr>height = 4, width = 4, pixels = [n, Suc n]\<rparr>"

definition toy_video :: "int \<Rightarrow> image list \<Rightarrow> video" where
  "toy_video count frms =
     \<lparr>path_exists = True, can_open = True, prop_fps = 25, prop_frame_count = count,
      frames = frms\<rparr>"

text \<open>A frame for which the stand-in resize returns \<open>None\<close>, and one for which it
  raises.\<close>

definition toy_blank :: image where
  "toy_blank = \<lparr>height = 4, width = 4, pixels = []\<rparr>"

definition toy_broken :: image where
  "toy_broken = \<lparr>height = 0, width = 4, pixels = [5]\<rparr>"



section \<open>Properties\<close>

subsection \<open>Rounding to a double\<close>

lemma floor_log2_bounds:
  "1 \<le> n \<Longrightarrow> 0 \<le> floor_log2 n \<and> 2 ^ nat (floor_log2 n) \<le> n \<and> n < 2 * 2 ^ nat (floor_log2 n)"
proof (induction n rule: floor_log2.induct)
  case (1 n)
  show ?case
  proof (cases "n < 2")
    case True
    then have "n = 1" using "1.prems" by simp
    then show ?thesis by (simp add: floor_log2.simps)
  next
    case False
    then have h: "1 \<le> n div 2" by simp
    from "1.IH" [OF False h] have ih: "0 \<le> floor_log2 (n div 2)"
      "2 ^ nat (floor_log2 (n div 2)) \<le> n div 2" "n div 2 < 2 * 2 ^ nat (floor_log2 (n div 2))"
      by simp_all
    have f: "floor_log2 n = floor_log2 (n div 2) + 1"
      using False by (subst floor_log2.simps) simp
    have p: "(2::int) ^ nat (floor_log2 (n div 2) + 1) = 2 * 2 ^ nat (floor_log2 (n div 2))"
      using ih(1) by (simp add: nat_add_distrib)
    show ?thesis
      unfolding f p using ih by auto
  qed
qed

lemma binade_bounds:
  assumes "0 < x"
  shows "2 powi binade x \<le> x \<and> x < 2 powi (binade x + 1)"
proof (cases "1 \<le> x")
  case True
  then have n: "1 \<le> \<lfloor>x\<rfloor>" by simp
  define k where "k = floor_log2 \<lfloor>x\<rfloor>"
  from floor_log2_bounds [OF n] have k: "0 \<le> k" "2 ^ nat k \<le> \<lfloor>x\<rfloor>" "\<lfloor>x\<rfloor> < 2 * 2 ^ nat k"
    by (simp_all add: k_def)
  have b: "binade x = k"
    using True by (simp add: binade_def k_def)
  have "(2::rat) ^ nat k = of_int (2 ^ nat k)" by simp
  also have "\<dots> \<le> of_int \<lfloor>x\<rfloor>" using k(2) by (simp only: of_int_le_iff)
  also have "\<dots> \<le> x" by simp
  finally have lo: "2 powi k \<le> x"
    using k(1) by (simp add: power_int_def)
  have "\<lfloor>x\<rfloor> + 1 \<le> 2 * 2 ^ nat k" using k(3) by simp
  then have "of_int (\<lfloor>x\<rfloor> + 1) \<le> (of_int (2 * 2 ^ nat k) :: rat)" by (simp only: of_int_le_iff)
  moreover have "x < of_int (\<lfloor>x\<rfloor> + 1)" by linarith
  ultimately have "x < 2 * 2 ^ nat k" by simp
  then have hi: "x < 2 powi (k + 1)"
    using k(1) by (simp add: power_int_def nat_add_distrib)
  show ?thesis unfolding b using lo hi by simp
next
  case False
  then have x1: "x < 1" by simp
  define y where "y = 1 / x"
  have y: "1 < y" using assms x1 by (simp add: y_def)
  define n where "n = \<lceil>y\<rceil>"
  have n: "2 \<le> n" "y \<le> of_int n" "of_int n - 1 < y"
    using y unfolding n_def by (linarith+)
  define j where "j = floor_log2 (n - 1)"
  have "1 \<le> n - 1" using n(1) by simp
  from floor_log2_bounds [OF this] have j: "0 \<le> j" "2 ^ nat j \<le> n - 1" "n - 1 < 2 * 2 ^ nat j"
    by (simp_all add: j_def)
  have b: "binade x = - (j + 1)"
    using False assms by (simp add: binade_def j_def n_def y_def)
  have "n \<le> 2 * 2 ^ nat j" using j(3) by simp
  then have "of_int n \<le> (of_int (2 * 2 ^ nat j) :: rat)" by (simp only: of_int_le_iff)
  then have yle: "y \<le> 2 * 2 ^ nat j" using n(2) by simp
  have "(of_int (2 ^ nat j) :: rat) \<le> of_int (n - 1)" using j(2) by (simp only: of_int_le_iff)
  then have ygt: "2 ^ nat j < y" using n(3) by simp
  have xy: "x = 1 / y" using assms by (simp add: y_def)
  have p1: "(2::rat) powi (- (j + 1)) = 1 / (2 * 2 ^ nat j)"
    using j(1) by (simp add: power_int_def nat_add_distrib field_simps)
  have p2: "(2::rat) powi (- (j + 1) + 1) = 1 / 2 ^ nat j"
    using j(1) by (simp add: power_int_def field_simps)
  have lo: "1 / (2 * 2 ^ nat j) \<le> x"
    unfolding xy using yle y by (intro divide_left_mono) simp_all
  have "(0::rat) < 2 ^ nat j" by simp
  then have hi: "x < 1 / 2 ^ nat j"
    unfolding xy using ygt y by (intro divide_strict_left_mono) simp_all
  show ?thesis unfolding b p1 p2 using lo hi by simp
qed

lemma binade_mono:
  assumes "0 < x" "x \<le> y"
  shows "binade x \<le> binade y"
proof (rule ccontr)
  assume "\<not> binade x \<le> binade y"
  then have "binade y + 1 \<le> binade x" by simp
  then have "(2::rat) powi (binade y + 1) \<le> 2 powi binade x"
    by (intro power_int_increasing) simp_all
  moreover have "y < 2 powi (binade y + 1)" "2 powi binade x \<le> x"
    using binade_bounds [of x] binade_bounds [of y] assms by simp_all
  ultimately show False using assms by simp
qed

lemma binade_eqI: "2 powi k \<le> x \<Longrightarrow> x < 2 powi (k + 1) \<Longrightarrow> binade x = k"
proof -
  assume a: "2 powi k \<le> x" "x < 2 powi (k + 1)"
  have "(0::rat) < 2 powi k" by simp
  then have pos: "0 < x" using a(1) by (rule less_le_trans)
  note b = binade_bounds [OF pos]
  have "\<not> binade x < k"
  proof
    assume "binade x < k"
    then have "(2::rat) powi (binade x + 1) \<le> 2 powi k"
      by (intro power_int_increasing) simp_all
    with a b show False by simp
  qed
  moreover have "\<not> k < binade x"
  proof
    assume "k < binade x"
    then have "(2::rat) powi (k + 1) \<le> 2 powi binade x"
      by (intro power_int_increasing) simp_all
    with a b show False by simp
  qed
  ultimately show ?thesis by simp
qed

lemma round_half_even_bounds: "\<lfloor>z\<rfloor> \<le> round_half_even z" "round_half_even z \<le> \<lfloor>z\<rfloor> + 1"
  by (simp_all add: round_half_even_def Let_def)

lemma round_half_even_of_int: "round_half_even (of_int k) = k"
  by (simp add: round_half_even_def)

lemma round_half_even_ge: "of_int n \<le> z \<Longrightarrow> n \<le> round_half_even z"
proof -
  assume "of_int n \<le> z"
  then have "n \<le> \<lfloor>z\<rfloor>" by (simp add: le_floor_iff)
  then show ?thesis using round_half_even_bounds(1) [of z] by simp
qed

lemma round_half_even_le: "z \<le> of_int n \<Longrightarrow> round_half_even z \<le> n"
proof (cases "z = of_int n")
  case True
  then show ?thesis by (simp add: round_half_even_of_int)
next
  case False
  assume "z \<le> of_int n"
  with False have "z < of_int n" by simp
  then have "\<lfloor>z\<rfloor> < n" by (simp add: floor_less_iff)
  then show ?thesis using round_half_even_bounds(2) [of z] by simp
qed



lemma round_half_even_mono: "x \<le> y \<Longrightarrow> round_half_even x \<le> round_half_even y"
proof -
  assume xy: "x \<le> y"
  have lo: "\<lfloor>z\<rfloor> \<le> round_half_even z" and hi: "round_half_even z \<le> \<lfloor>z\<rfloor> + 1" for z
    by (simp_all add: round_half_even_def Let_def)
  show ?thesis
  proof (cases "\<lfloor>x\<rfloor> < \<lfloor>y\<rfloor>")
    case True
    then have "round_half_even x \<le> \<lfloor>y\<rfloor>"
      using hi [of x] by simp
    then show ?thesis
      using lo [of y] by simp
  next
    case False
    then have fy: "\<lfloor>y\<rfloor> = \<lfloor>x\<rfloor>"
      using floor_mono [OF xy] by simp
    consider (below) "x - of_int \<lfloor>x\<rfloor> < 1 / 2" | (above) "1 / 2 < x - of_int \<lfloor>x\<rfloor>"
      | (tie) "x - of_int \<lfloor>x\<rfloor> = 1 / 2"
      by linarith
    then show ?thesis
    proof cases
      case below
      then have "round_half_even x = \<lfloor>x\<rfloor>"
        by (simp add: round_half_even_def Let_def)
      then show ?thesis
        using lo [of y] fy by simp
    next
      case above
      then have "1 / 2 < y - of_int \<lfloor>y\<rfloor>"
        using xy fy by simp
      then have "round_half_even y = \<lfloor>y\<rfloor> + 1"
        by (simp add: round_half_even_def Let_def)
      then show ?thesis
        using hi [of x] fy by simp
    next
      case tie
      show ?thesis
      proof (cases "even \<lfloor>x\<rfloor>")
        case True
        then have "round_half_even x = \<lfloor>x\<rfloor>"
          using tie by (simp add: round_half_even_def Let_def)
        then show ?thesis
          using lo [of y] fy by simp
      next
        case False
        have "1 / 2 \<le> y - of_int \<lfloor>y\<rfloor>"
          using xy fy tie by simp
        then have "round_half_even y = \<lfloor>y\<rfloor> + 1"
          using False fy by (simp add: round_half_even_def Let_def)
        then show ?thesis
          using hi [of x] fy by simp
      qed
    qed
  qed
qed

lemma round_magnitude_nonneg: "0 \<le> x \<Longrightarrow> 0 \<le> round_magnitude x"
proof -
  assume x: "0 \<le> x"
  have p: "(0::rat) < 2 powi ulp_exp x" by simp
  then have "0 \<le> x / 2 powi ulp_exp x" using x by simp
  then have "of_int 0 \<le> x / 2 powi ulp_exp x" by simp
  then have "0 \<le> round_half_even (x / 2 powi ulp_exp x)" by (rule round_half_even_ge)
  then show ?thesis using p by (simp add: round_magnitude_def)
qed

lemma ulp_exp_mono: "0 < x \<Longrightarrow> x \<le> y \<Longrightarrow> ulp_exp x \<le> ulp_exp y"
  using binade_mono [of x y] by (simp add: ulp_exp_def)

lemma round_magnitude_mono:
  assumes "0 \<le> x" "x \<le> y"
  shows "round_magnitude x \<le> round_magnitude y"
proof (cases "x = 0")
  case True
  then show ?thesis
    using round_magnitude_nonneg [of y] assms by (simp add: round_magnitude_def)
next
  case False
  then have x: "0 < x" and y: "0 < y" using assms by simp_all
  define ex where "ex = ulp_exp x"
  define ey where "ey = ulp_exp y"
  have rx: "round_magnitude x = of_int (round_half_even (x / 2 powi ex)) * 2 powi ex"
    using x by (simp add: round_magnitude_def ex_def)
  have ry: "round_magnitude y = of_int (round_half_even (y / 2 powi ey)) * 2 powi ey"
    using y by (simp add: round_magnitude_def ey_def)
  have le: "ex \<le> ey"
    unfolding ex_def ey_def using x assms(2) by (rule ulp_exp_mono)
  show ?thesis
  proof (cases "ex = ey")
    case True
    have "x / 2 powi ey \<le> y / 2 powi ey"
      using assms(2) by (simp add: divide_right_mono)
    then have "round_half_even (x / 2 powi ey) \<le> round_half_even (y / 2 powi ey)"
      by (rule round_half_even_mono)
    then have "(of_int (round_half_even (x / 2 powi ey)) :: rat)
        \<le> of_int (round_half_even (y / 2 powi ey))"
      by (simp only: of_int_le_iff)
    then show ?thesis
      unfolding rx ry True by (simp add: mult_right_mono)
  next
    case False
    then have lt: "ex < ey" using le by simp
    define b where "b = binade y"
    have ey: "ey = b - 52" and bx: "binade x < b" and big: "- 1074 < b - 52"
      using lt unfolding ex_def ey_def ulp_exp_def b_def by (simp_all add: max_def split: if_splits)
    have d: "0 \<le> b - ex"
      using bx big unfolding ex_def ulp_exp_def by (simp add: max_def split: if_splits)
    have xb: "x < 2 powi b"
    proof -
      have "x < 2 powi (binade x + 1)" using binade_bounds [OF x] by simp
      also have "\<dots> \<le> 2 powi b" using bx by (intro power_int_increasing) simp_all
      finally show ?thesis .
    qed
    have yb: "2 powi b \<le> y"
      using binade_bounds [OF y] by (simp add: b_def)
    have split: "(2::rat) powi b = 2 powi (b - ex) * 2 powi ex"
      by (simp flip: power_int_add)
    have int_pow: "(2::rat) powi (b - ex) = of_int (2 ^ nat (b - ex))"
      using d by (simp add: power_int_def)
    have "x / 2 powi ex \<le> 2 powi (b - ex)"
      using xb unfolding split by (simp add: pos_divide_le_eq)
    then have "x / 2 powi ex \<le> of_int (2 ^ nat (b - ex))"
      by (simp only: int_pow)
    then have "round_half_even (x / 2 powi ex) \<le> 2 ^ nat (b - ex)"
      by (rule round_half_even_le)
    then have "(of_int (round_half_even (x / 2 powi ex)) :: rat) \<le> of_int (2 ^ nat (b - ex))"
      by (simp only: of_int_le_iff)
    then have "of_int (round_half_even (x / 2 powi ex)) * 2 powi ex
        \<le> (2::rat) powi (b - ex) * 2 powi ex"
      unfolding int_pow by (intro mult_right_mono) simp_all
    then have up: "round_magnitude x \<le> 2 powi b"
      unfolding rx split .
    have "(2::rat) powi (52 + ey) = 2 powi 52 * 2 powi ey"
      by (rule power_int_add) simp
    moreover have "52 + ey = b" by (simp add: ey)
    ultimately have split2: "(2::rat) powi b = 2 powi 52 * 2 powi ey"
      by simp
    have "(2::rat) powi 52 \<le> y / 2 powi ey"
      using yb unfolding split2 by (simp add: pos_le_divide_eq)
    then have "of_int (2 ^ 52) \<le> y / 2 powi ey"
      by simp
    then have "2 ^ 52 \<le> round_half_even (y / 2 powi ey)"
      by (rule round_half_even_ge)
    then have "(of_int (2 ^ 52) :: rat) \<le> of_int (round_half_even (y / 2 powi ey))"
      by (simp only: of_int_le_iff)
    then have "of_int (2 ^ 52) * 2 powi ey
        \<le> (of_int (round_half_even (y / 2 powi ey)) :: rat) * 2 powi ey"
      by (intro mult_right_mono) simp_all
    then have down: "2 powi b \<le> round_magnitude y"
      unfolding ry split2 by simp
    from up down show ?thesis by simp
  qed
qed

lemma round_double_nonneg: "0 \<le> x \<Longrightarrow> 0 \<le> round_double x"
  by (simp add: round_double_def round_magnitude_nonneg)

lemma round_double_mono_nonneg: "0 \<le> x \<Longrightarrow> x \<le> y \<Longrightarrow> round_double x \<le> round_double y"
  by (simp add: round_double_def round_magnitude_mono)

lemma round_magnitude_exact:
  assumes "0 < x" "x / 2 powi ulp_exp x = of_int m"
  shows "round_magnitude x = x"
proof -
  have "round_magnitude x = of_int m * 2 powi ulp_exp x"
    using assms by (simp add: round_magnitude_def round_half_even_of_int)
  also have "\<dots> = x / 2 powi ulp_exp x * 2 powi ulp_exp x"
    by (simp only: assms(2))
  also have "\<dots> = x" by simp
  finally show ?thesis .
qed

lemma round_double_exactI:
  assumes "2 powi k \<le> x" "x < 2 powi (k + 1)" "- 1022 \<le> k" "x / 2 powi (k - 52) = of_int m"
  shows "round_double x = x"
proof -
  have "(0::rat) < 2 powi k" by simp
  then have pos: "0 < x" using assms(1) by (rule less_le_trans)
  have "binade x = k" using assms(1,2) by (rule binade_eqI)
  then have "ulp_exp x = k - 52" using assms(3) by (simp add: ulp_exp_def)
  then have "round_magnitude x = x"
    using assms(4) pos by (intro round_magnitude_exact [of x m]) simp_all
  then show ?thesis using pos by (simp add: round_double_def)
qed

lemma round_double_1: "round_double 1 = 1"
  by (rule round_double_exactI [of 0 _ "2 ^ 52"]) simp_all

lemma round_double_100: "round_double 100 = 100"
  by (rule round_double_exactI [of 6 _ "100 * 2 ^ 46"]) simp_all

lemma round_double_half: "round_double (1 / 2) = 1 / 2"
  by (rule round_double_exactI [of "- 1" _ "2 ^ 52"]) simp_all

lemma round_double_50: "round_double 50 = 50"
  by (rule round_double_exactI [of 5 _ "50 * 2 ^ 47"]) simp_all

lemma round_double_7_4: "round_double (7 / 4) = 7 / 4"
  by (rule round_double_exactI [of 0 _ "7 * 2 ^ 50"]) simp_all



lemma round_double_evalI:
  assumes "2 powi k \<le> x" "x < 2 powi (k + 1)" "- 1022 \<le> k"
    and "round_half_even (x / 2 powi (k - 52)) = m"
  shows "round_double x = of_int m * 2 powi (k - 52)"
proof -
  have "(0::rat) < 2 powi k" by simp
  then have pos: "0 < x" using assms(1) by (rule less_le_trans)
  have "binade x = k" using assms(1,2) by (rule binade_eqI)
  then have "ulp_exp x = k - 52" using assms(3) by (simp add: ulp_exp_def)
  then show ?thesis using pos assms(4) by (simp add: round_double_def round_magnitude_def)
qed

lemma round_half_even_near:
  assumes "of_int m - 1 / 2 < z" "z < of_int m + 1 / 2"
  shows "round_half_even z = m"
proof (cases "of_int m \<le> z")
  case True
  then have "\<lfloor>z\<rfloor> = m" using assms(2) by (intro floor_unique) simp_all
  then show ?thesis using assms(2) by (simp add: round_half_even_def Let_def)
next
  case False
  then have "\<lfloor>z\<rfloor> = m - 1" using assms(1) by (intro floor_unique) simp_all
  then show ?thesis using assms(1) by (simp add: round_half_even_def Let_def)
qed



subsection \<open>The worker pool returns the results in task order\<close>


lemma arrivals_Nil [simp]: "arrivals picks [] = []"
  by (simp add: arrivals.simps)

lemma arrivals_set: "set (arrivals picks xs) = set xs"
proof (induction picks xs rule: arrivals.induct)
  case (1 picks pending)
  show ?case
  proof (cases "pending = []")
    case True
    then show ?thesis by simp
  next
    case False
    define k where "k = (case picks of [] \<Rightarrow> 0 | p # _ \<Rightarrow> p mod length pending)"
    have k: "k < length pending"
      using False by (auto simp: k_def split: list.splits)
    have ih: "set (arrivals (tl picks) (take k pending @ drop (Suc k) pending))
                = set (take k pending @ drop (Suc k) pending)"
      using "1.IH" [OF False k_def] .
    have "set pending = set (take k pending @ pending ! k # drop (Suc k) pending)"
      using id_take_nth_drop [OF k] by simp
    then have "set pending = insert (pending ! k) (set (take k pending @ drop (Suc k) pending))"
      by simp
    moreover have "arrivals picks pending
        = pending ! k # arrivals (tl picks) (take k pending @ drop (Suc k) pending)"
      using False by (subst arrivals.simps) (simp add: k_def Let_def)
    ultimately show ?thesis
      using ih by simp
  qed
qed

lemma arrivals_distinct: "distinct (map g xs) \<Longrightarrow> distinct (map g (arrivals picks xs))"
proof (induction picks xs rule: arrivals.induct)
  case (1 picks pending)
  show ?case
  proof (cases "pending = []")
    case True
    then show ?thesis by simp
  next
    case False
    define k where "k = (case picks of [] \<Rightarrow> 0 | p # _ \<Rightarrow> p mod length pending)"
    have k: "k < length pending"
      using False by (auto simp: k_def split: list.splits)
    have split: "pending = take k pending @ pending ! k # drop (Suc k) pending"
      using id_take_nth_drop [OF k] .
    have "distinct (map g (take k pending @ pending ! k # drop (Suc k) pending))"
      using "1.prems" split by simp
    then have d: "distinct (map g (take k pending @ drop (Suc k) pending))"
      and n: "g (pending ! k) \<notin> g ` set (take k pending @ drop (Suc k) pending)"
      by auto
    have ih: "distinct (map g (arrivals (tl picks) (take k pending @ drop (Suc k) pending)))"
      using "1.IH" [OF False k_def d] .
    have "arrivals picks pending
        = pending ! k # arrivals (tl picks) (take k pending @ drop (Suc k) pending)"
      using False by (subst arrivals.simps) (simp add: k_def Let_def)
    then show ?thesis
      using ih n by (simp add: arrivals_set)
  qed
qed

lemma length_foldl_store: "length (foldl store slots ts) = length slots"
  by (induction ts arbitrary: slots) (auto simp: store_def split: sum.splits)

lemma foldl_store_other:
  "i \<notin> fst ` set ts \<Longrightarrow> foldl store slots ts ! i = slots ! i"
  by (induction ts arbitrary: slots) (auto simp: store_def split: sum.splits)

lemma foldl_store_nth:
  "distinct (map fst ts) \<Longrightarrow> (i, Inr y) \<in> set ts \<Longrightarrow> i < length slots
     \<Longrightarrow> foldl store slots ts ! i = Some y"
proof (induction ts arbitrary: slots)
  case Nil
  then show ?case by simp
next
  case (Cons t ts)
  show ?case
  proof (cases "t = (i, Inr y)")
    case True
    then have "i \<notin> fst ` set ts"
      using Cons.prems(1) by auto
    moreover have "store slots t = slots[i := Some y]"
      using True by (simp add: store_def)
    ultimately show ?thesis
      using Cons.prems(3) by (simp add: foldl_store_other)
  next
    case False
    then have "(i, Inr y) \<in> set ts"
      using Cons.prems(2) by simp
    moreover have "i < length (store slots t)"
      using Cons.prems(3) by (simp add: store_def split: sum.splits)
    ultimately show ?thesis
      using Cons.IH Cons.prems(1) by simp
  qed
qed

lemma failures_empty: "failures ts = [] \<longleftrightarrow> (\<forall>t \<in> set ts. \<not> isl (snd t))"
  by (induction ts) (auto simp: failures_def List.map_filter_simps split: sum.splits)

lemma failures_mem: "err \<in> set (failures ts) \<longleftrightarrow> (\<exists>i. (i, Inl err) \<in> set ts)"
  by (induction ts) (auto simp: failures_def List.map_filter_simps split: sum.splits)

lemma starmap_returns:
  assumes "map f args = map Inr rs"
  shows "starmap picks f args = Inr rs"
proof -
  define n where "n = length args"
  define tasks where "tasks = zip [0..<n] (map f args)"
  define finished where "finished = arrivals picks tasks"
  have len: "length rs = n"
    using assms unfolding n_def by (metis length_map)
  have tasks: "tasks = zip [0..<n] (map Inr rs)"
    using assms by (simp add: tasks_def)
  have fin_set: "set finished = set tasks"
    by (simp add: finished_def arrivals_set)
  have "distinct (map fst tasks)"
    using len by (simp add: tasks)
  then have fin_dist: "distinct (map fst finished)"
    unfolding finished_def by (rule arrivals_distinct)
  have "\<forall>t \<in> set finished. \<not> isl (snd t)"
    unfolding fin_set tasks by (auto dest!: set_zip_rightD)
  then have nofail: "failures finished = []"
    by (simp add: failures_empty)
  have "map the (foldl store (replicate n None) finished) = rs"
  proof (rule nth_equalityI)
    show "length (map the (foldl store (replicate n None) finished)) = length rs"
      by (simp add: length_foldl_store len)
  next
    fix i
    assume "i < length (map the (foldl store (replicate n None) finished))"
    then have i: "i < n"
      by (simp add: length_foldl_store)
    then have "(i, Inr (rs ! i)) \<in> set tasks"
      using len unfolding tasks by (auto simp: set_zip intro!: exI [of _ i])
    then have "foldl store (replicate n None) finished ! i = Some (rs ! i)"
      using fin_dist fin_set i by (intro foldl_store_nth) auto
    then show "map the (foldl store (replicate n None) finished) ! i = rs ! i"
      using i by (simp add: length_foldl_store)
  qed
  then show ?thesis
    using nofail by (simp add: starmap_def Let_def n_def [symmetric] tasks_def [symmetric]
        finished_def [symmetric])
qed

lemma starmap_raises:
  "starmap picks f args = Inl err \<longleftrightarrow>
     failures (arrivals picks (zip [0..<length args] (map f args))) \<noteq> []
     \<and> err = hd (failures (arrivals picks (zip [0..<length args] (map f args))))"
  by (auto simp: starmap_def Let_def split: list.splits)

lemma starmap_raises_mem:
  assumes "starmap picks f args = Inl err"
  shows "\<exists>a \<in> set args. f a = Inl err"
proof -
  let ?fin = "arrivals picks (zip [0..<length args] (map f args))"
  have "err \<in> set (failures ?fin)"
    using assms by (auto simp: starmap_raises)
  then obtain i where "(i, Inl err) \<in> set (zip [0..<length args] (map f args))"
    by (auto simp: failures_mem arrivals_set)
  then have "Inl err \<in> set (map f args)"
    by (rule set_zip_rightD)
  then show ?thesis by auto
qed

lemma all_returned:
  "(\<forall>a \<in> set args. \<not> isl (f a)) \<Longrightarrow> map f args = map Inr (map (\<lambda>a. projr (f a)) args)"
  by (induction args) auto

lemma starmap_Inr_iff: "starmap picks f args = Inr rs \<longleftrightarrow> map f args = map Inr rs"
proof
  assume "map f args = map Inr rs"
  then show "starmap picks f args = Inr rs" by (rule starmap_returns)
next
  assume r: "starmap picks f args = Inr rs"
  have "\<forall>a \<in> set args. \<not> isl (f a)"
  proof (rule ccontr)
    assume "\<not> (\<forall>a \<in> set args. \<not> isl (f a))"
    then obtain a err where a: "a \<in> set args" "f a = Inl err"
      by (auto simp: isl_def)
    then obtain i where "i < length args" "args ! i = a"
      by (auto simp: in_set_conv_nth)
    then have "(i, Inl err) \<in> set (zip [0..<length args] (map f args))"
      using a by (auto simp: set_zip intro!: exI [of _ i])
    then have "failures (arrivals picks (zip [0..<length args] (map f args))) \<noteq> []"
      by (auto simp: failures_empty arrivals_set intro!: bexI [of _ "(i, Inl err)"])
    then show False
      using r by (auto simp: starmap_def Let_def split: list.splits)
  qed
  then have "map f args = map Inr (map (\<lambda>a. projr (f a)) args)"
    by (rule all_returned)
  moreover from this have "starmap picks f args = Inr (map (\<lambda>a. projr (f a)) args)"
    by (rule starmap_returns)
  ultimately show "map f args = map Inr rs"
    using r by simp
qed

lemma comprehension_Inr_iff: "comprehension f xs = Inr rs \<longleftrightarrow> map f xs = map Inr rs"
proof (induction xs arbitrary: rs)
  case Nil
  then show ?case by auto
next
  case (Cons x xs)
  show ?case
  proof (cases "f x")
    case (Inl err)
    then show ?thesis by (cases rs) auto
  next
    case (Inr y)
    show ?thesis
    proof (cases "comprehension f xs")
      case (Inl err)
      then have "\<And>ys. map f xs \<noteq> map Inr ys"
        using Cons.IH by (metis sum.distinct(1))
      then show ?thesis
        using Inl Inr by (cases rs) auto
    next
      case r: (Inr ys)
      have iff: "map f xs = map Inr zs \<longleftrightarrow> ys = zs" for zs
        using Cons.IH [of zs] r by auto
      show ?thesis
        using r Inr iff by (cases rs) auto
    qed
  qed
qed


subsection \<open>One batch, one iteration\<close>


lemma write_frames_eq:
  "write_frames rs s =
     s\<lparr>out := out s @ not_none rs,
       total_processed_frames := total_processed_frames s + length (not_none rs)\<rparr>"
proof (induction rs arbitrary: s)
  case Nil
  show ?case by (simp add: not_none_def List.map_filter_simps)
next
  case (Cons r rs)
  show ?case
    by (cases r) (simp_all add: Cons.IH not_none_def List.map_filter_simps)
qed

lemma successes_append:
  "successes e sx sy (xs @ ys) = successes e sx sy xs @ successes e sx sy ys"
  by (simp add: successes_def List.map_filter_def)

lemma not_none_successes:
  "map (\<lambda>f. process_frame e f sx sy) fs = map Inr rs \<Longrightarrow> not_none rs = successes e sx sy fs"
proof (induction fs arbitrary: rs)
  case Nil
  then show ?case by (simp add: not_none_def successes_def List.map_filter_simps)
next
  case (Cons f fs)
  then obtain r rs' where rs: "rs = r # rs'" "process_frame e f sx sy = Inr r"
    "map (\<lambda>f. process_frame e f sx sy) fs = map Inr rs'"
    by (cases rs) auto
  from Cons.IH [OF rs(3)] have "not_none rs' = successes e sx sy fs" .
  then show ?case
    using rs(1,2) by (cases r) (simp_all add: not_none_def successes_def List.map_filter_simps)
qed

lemma starmap_args:
  "map (\<lambda>(f, x, y). process_frame e f x y) (map (\<lambda>f. (f, sx, sy)) fs)
     = map (\<lambda>f. process_frame e f sx sy) fs"
  by simp

lemma run_batch_Inr:
  "run_batch e sx sy s = Inr s' \<longleftrightarrow>
     (\<exists>rs. map (\<lambda>f. process_frame e f sx sy) (frame_buffer s) = map Inr rs
        \<and> s' = s\<lparr>sched := tl (sched s), batches := batches s @ [frame_buffer s],
                 out := out s @ not_none rs,
                 total_processed_frames := total_processed_frames s + length (not_none rs)\<rparr>)"
proof -
  let ?call = "starmap (case sched s of [] \<Rightarrow> [] | picks # _ \<Rightarrow> picks)
                 (\<lambda>(f, x, y). process_frame e f x y)
                 (map (\<lambda>f. (f, sx, sy)) (frame_buffer s))"
  have call: "?call = Inr rs \<longleftrightarrow> map (\<lambda>f. process_frame e f sx sy) (frame_buffer s) = map Inr rs"
    for rs
    by (simp add: starmap_Inr_iff o_def)
  show ?thesis
  proof (cases ?call)
    case (Inl err)
    then have "\<And>rs. map (\<lambda>f. process_frame e f sx sy) (frame_buffer s) \<noteq> map Inr rs"
      using call by (metis sum.distinct(1))
    then show ?thesis
      using Inl by (simp add: run_batch_def)
  next
    case (Inr rs)
    then have m: "map (\<lambda>f. process_frame e f sx sy) (frame_buffer s) = map Inr rs"
      using call by simp
    have u: "rs' = rs" if "map (\<lambda>f. process_frame e f sx sy) (frame_buffer s) = map Inr rs'" for rs'
      using that m by (simp add: inj_map_eq_map)
    have rb: "run_batch e sx sy s =
        Inr (s\<lparr>sched := tl (sched s), batches := batches s @ [frame_buffer s],
                out := out s @ not_none rs,
                total_processed_frames := total_processed_frames s + length (not_none rs)\<rparr>)"
      using Inr by (simp add: run_batch_def write_frames_eq)
    show ?thesis
    proof
      assume "run_batch e sx sy s = Inr s'"
      then have "s' = s\<lparr>sched := tl (sched s), batches := batches s @ [frame_buffer s],
                out := out s @ not_none rs,
                total_processed_frames := total_processed_frames s + length (not_none rs)\<rparr>"
        using rb by simp
      then show "\<exists>rs. map (\<lambda>f. process_frame e f sx sy) (frame_buffer s) = map Inr rs
        \<and> s' = s\<lparr>sched := tl (sched s), batches := batches s @ [frame_buffer s],
                 out := out s @ not_none rs,
                 total_processed_frames := total_processed_frames s + length (not_none rs)\<rparr>"
        using m by blast
    next
      assume "\<exists>rs. map (\<lambda>f. process_frame e f sx sy) (frame_buffer s) = map Inr rs
        \<and> s' = s\<lparr>sched := tl (sched s), batches := batches s @ [frame_buffer s],
                 out := out s @ not_none rs,
                 total_processed_frames := total_processed_frames s + length (not_none rs)\<rparr>"
      then obtain rs' where r: "map (\<lambda>f. process_frame e f sx sy) (frame_buffer s) = map Inr rs'"
        "s' = s\<lparr>sched := tl (sched s), batches := batches s @ [frame_buffer s],
                 out := out s @ not_none rs',
                 total_processed_frames := total_processed_frames s + length (not_none rs')\<rparr>"
        by blast
      have "rs' = rs" using u [OF r(1)] .
      then show "run_batch e sx sy s = Inr s'"
        using rb r(2) by simp
    qed
  qed
qed

lemma run_batch_Inl:
  "run_batch e sx sy s = Inl err \<Longrightarrow> \<exists>f \<in> set (frame_buffer s). process_frame e f sx sy = Inl err"
  unfolding run_batch_def
  by (auto split: sum.splits dest!: starmap_raises_mem)



lemma stream_loop_eof:
  "length (frames v) \<le> p \<Longrightarrow>
     stream_loop e v sx sy t p s = (if frame_buffer s \<noteq> [] then run_batch e sx sy s else Inr s)"
  by (subst stream_loop.simps) (simp add: cap_read_def)

lemma stream_loop_zero:
  "p < length (frames v) \<Longrightarrow> isl (stream_loop e v sx sy 0 p s)"
  by (subst stream_loop.simps)
     (simp add: cap_read_def int_truediv_def percent_def Let_def split: sum.splits)

lemma stream_loop_part:
  "p < length (frames v) \<Longrightarrow> Suc (length (frame_buffer s)) < batch_size \<Longrightarrow> t \<noteq> 0 \<Longrightarrow>
     stream_loop e v sx sy t p s =
       stream_loop e v sx sy t (Suc p)
         (s\<lparr>frame_buffer := frame_buffer s @ [frames v ! p],
            progress_file := progress_file s @ progress_line (percent (Suc p) t),
            reported := reported s @ [percent (Suc p) t]\<rparr>)"
  by (subst stream_loop.simps) (simp add: cap_read_def int_truediv_def percent_def Let_def)

lemma stream_loop_full:
  "p < length (frames v) \<Longrightarrow> batch_size \<le> Suc (length (frame_buffer s)) \<Longrightarrow> t \<noteq> 0 \<Longrightarrow>
     stream_loop e v sx sy t p s =
       (case run_batch e sx sy (s\<lparr>frame_buffer := frame_buffer s @ [frames v ! p]\<rparr>) of
          Inl err \<Rightarrow> Inl err
        | Inr s2 \<Rightarrow>
            stream_loop e v sx sy t (Suc p)
              (s2\<lparr>frame_buffer := [],
                  progress_file := progress_file s2 @ progress_line (percent (Suc p) t),
                  reported := reported s2 @ [percent (Suc p) t]\<rparr>))"
  by (subst stream_loop.simps) (simp add: cap_read_def int_truediv_def percent_def Let_def split: sum.splits)


subsection \<open>What the loop has done when it returns\<close>


lemma chunks_Nil [simp]: "chunks n [] = []"
  by (simp add: chunks.simps)

lemma chunks_short: "xs \<noteq> [] \<Longrightarrow> length xs \<le> n \<Longrightarrow> chunks n xs = [xs]"
  by (subst chunks.simps) (cases xs, auto)

lemma successes_Nil [simp]: "successes e sx sy [] = []"
  by (simp add: successes_def List.map_filter_simps)

lemma successes_Cons:
  "successes e sx sy (f # fs) =
     (case process_frame e f sx sy of Inr (Some y) \<Rightarrow> [y] | _ \<Rightarrow> []) @ successes e sx sy fs"
  by (simp add: successes_def List.map_filter_simps split: sum.splits option.splits)

lemma chunks_full: "length xs = n \<Longrightarrow> 0 < n \<Longrightarrow> chunks n (xs @ ys) = xs # chunks n ys"
  by (subst chunks.simps) auto

lemma concat_chunks: "0 < n \<Longrightarrow> concat (chunks n xs) = xs"
proof (induction n xs rule: chunks.induct)
  case (1 n xs)
  show ?case
  proof (cases "xs = []")
    case True
    then show ?thesis by simp
  next
    case False
    have "chunks n xs = take n xs # chunks n (drop n xs)"
      using False "1.prems" by (subst chunks.simps) simp
    moreover have "concat (chunks n (drop n xs)) = drop n xs"
      using "1.IH" False "1.prems" by simp
    ultimately show ?thesis by simp
  qed
qed

lemma percentages_empty: "n \<le> p \<Longrightarrow> percentages t p n = []"
  by (simp add: percentages_def)

lemma percentages_step:
  "p < n \<Longrightarrow> percentages t p n = (percent (Suc p) t) # percentages t (Suc p) n"
proof -
  assume "p < n"
  then have "[Suc p..<Suc n] = Suc p # [Suc (Suc p)..<Suc n]"
    by (simp add: upt_conv_Cons del: upt_Suc)
  then show ?thesis
    by (simp only: percentages_def list.map)
qed

lemma list_all_returned:
  "map (\<lambda>f. process_frame e f sx sy) fs = map Inr rs \<Longrightarrow>
     list_all (\<lambda>f. \<not> isl (process_frame e f sx sy)) fs"
proof (induction fs arbitrary: rs)
  case Nil
  show ?case by simp
next
  case (Cons f fs)
  then obtain r rs' where "rs = r # rs'" "process_frame e f sx sy = Inr r"
    "map (\<lambda>f. process_frame e f sx sy) fs = map Inr rs'"
    by (cases rs) auto
  then show ?case
    using Cons.IH by simp
qed

lemma loop_post_eof_flush:
  assumes "length (frames v) \<le> p" "frame_buffer s \<noteq> []" "length (frame_buffer s) < batch_size"
    and "run_batch e sx sy s = Inr s'"
  shows "loop_post e v sx sy t p s s'"
proof -
  obtain rs where rs: "map (\<lambda>f. process_frame e f sx sy) (frame_buffer s) = map Inr rs"
    and s': "s' = s\<lparr>sched := tl (sched s), batches := batches s @ [frame_buffer s],
                 out := out s @ not_none rs,
                 total_processed_frames := total_processed_frames s + length (not_none rs)\<rparr>"
    using assms(4) unfolding run_batch_Inr by blast
  have nn: "not_none rs = successes e sx sy (frame_buffer s)"
    using rs by (rule not_none_successes)
  have ch: "chunks batch_size (frame_buffer s) = [frame_buffer s]"
    using assms(2,3) by (simp add: chunks_short)
  have la: "list_all (\<lambda>f. \<not> isl (process_frame e f sx sy)) (frame_buffer s)"
    using rs by (rule list_all_returned)
  show ?thesis
    unfolding loop_post_def Let_def
    using assms(1) la by (simp add: s' nn ch percentages_empty)
qed

lemma loop_post_eof_empty:
  assumes "length (frames v) \<le> p" "frame_buffer s = []"
  shows "loop_post e v sx sy t p s s"
  unfolding loop_post_def Let_def
  using assms by (simp add: percentages_empty successes_def List.map_filter_simps)

lemma loop_post_part:
  assumes p: "p < length (frames v)" and t: "t \<noteq> 0"
    and post: "loop_post e v sx sy t (Suc p)
         (s\<lparr>frame_buffer := frame_buffer s @ [frames v ! p],
            progress_file := progress_file s @ progress_line (percent (Suc p) t),
            reported := reported s @ [percent (Suc p) t]\<rparr>) s'"
  shows "loop_post e v sx sy t p s s'"
proof -
  have d: "drop p (frames v) = frames v ! p # drop (Suc p) (frames v)"
    using p by (simp add: Cons_nth_drop_Suc)
  show ?thesis
    using post t unfolding loop_post_def Let_def
    by (simp add: d successes_append successes_Cons percentages_step [OF p])
qed

lemma loop_post_full:
  assumes p: "p < length (frames v)" and t: "t \<noteq> 0"
    and full: "Suc (length (frame_buffer s)) = batch_size"
    and rb: "run_batch e sx sy (s\<lparr>frame_buffer := frame_buffer s @ [frames v ! p]\<rparr>) = Inr s2"
    and post: "loop_post e v sx sy t (Suc p)
         (s2\<lparr>frame_buffer := [],
             progress_file := progress_file s2 @ progress_line (percent (Suc p) t),
             reported := reported s2 @ [percent (Suc p) t]\<rparr>) s'"
  shows "loop_post e v sx sy t p s s'"
proof -
  let ?b = "frame_buffer s @ [frames v ! p]"
  have d: "drop p (frames v) = frames v ! p # drop (Suc p) (frames v)"
    using p by (simp add: Cons_nth_drop_Suc)
  obtain rs where rs: "map (\<lambda>f. process_frame e f sx sy) ?b = map Inr rs"
    and s2: "s2 = s\<lparr>frame_buffer := ?b, sched := tl (sched s), batches := batches s @ [?b],
                 out := out s @ not_none rs,
                 total_processed_frames := total_processed_frames s + length (not_none rs)\<rparr>"
    using rb unfolding run_batch_Inr by auto
  have nn: "not_none rs = successes e sx sy ?b"
    using rs by (rule not_none_successes)
  have la: "list_all (\<lambda>f. \<not> isl (process_frame e f sx sy)) ?b"
    using rs by (rule list_all_returned)
  have todo: "frame_buffer s @ drop p (frames v) = ?b @ drop (Suc p) (frames v)"
    by (simp add: d)
  have ch: "chunks batch_size (?b @ drop (Suc p) (frames v))
              = ?b # chunks batch_size (drop (Suc p) (frames v))"
    using full by (intro chunks_full) (simp_all add: batch_size_def)
  show ?thesis
    using post t la unfolding loop_post_def Let_def todo ch
    by (simp add: s2 nn successes_append successes_Cons percentages_step [OF p])
qed



lemma stream_loop_post:
  "stream_loop e v sx sy t p s = Inr s' \<Longrightarrow> length (frame_buffer s) < batch_size
     \<Longrightarrow> loop_post e v sx sy t p s s'"
proof (induction "length (frames v) - p" arbitrary: p s)
  case 0
  then have eof: "length (frames v) \<le> p" by simp
  show ?case
  proof (cases "frame_buffer s = []")
    case True
    then have "s' = s"
      using "0.prems"(1) by (simp add: stream_loop_eof [OF eof])
    then show ?thesis
      using loop_post_eof_empty [OF eof True] by simp
  next
    case False
    then have "run_batch e sx sy s = Inr s'"
      using "0.prems"(1) by (simp add: stream_loop_eof [OF eof])
    then show ?thesis
      by (rule loop_post_eof_flush [OF eof False "0.prems"(2)])
  qed
next
  case (Suc n)
  then have p: "p < length (frames v)" and n: "n = length (frames v) - Suc p"
    by simp_all
  have t: "t \<noteq> 0"
    using stream_loop_zero [OF p, of e sx sy s] Suc.prems(1) by auto
  show ?case
  proof (cases "Suc (length (frame_buffer s)) < batch_size")
    case True
    let ?s1 = "s\<lparr>frame_buffer := frame_buffer s @ [frames v ! p],
            progress_file := progress_file s @ progress_line (percent (Suc p) t),
            reported := reported s @ [percent (Suc p) t]\<rparr>"
    have "stream_loop e v sx sy t (Suc p) ?s1 = Inr s'"
      using Suc.prems(1) by (simp add: stream_loop_part [OF p True t])
    moreover have "length (frame_buffer ?s1) < batch_size"
      using True by simp
    ultimately have "loop_post e v sx sy t (Suc p) ?s1 s'"
      using Suc.hyps(1) [OF n] by blast
    then show ?thesis
      by (rule loop_post_part [OF p t])
  next
    case False
    then have full: "Suc (length (frame_buffer s)) = batch_size"
      using Suc.prems(2) by simp
    then have ge: "batch_size \<le> Suc (length (frame_buffer s))" by simp
    obtain s2 where rb: "run_batch e sx sy (s\<lparr>frame_buffer := frame_buffer s @ [frames v ! p]\<rparr>) = Inr s2"
      using Suc.prems(1) unfolding stream_loop_full [OF p ge t]
      by (cases "run_batch e sx sy (s\<lparr>frame_buffer := frame_buffer s @ [frames v ! p]\<rparr>)") auto
    let ?s4 = "s2\<lparr>frame_buffer := [],
             progress_file := progress_file s2 @ progress_line (percent (Suc p) t),
             reported := reported s2 @ [percent (Suc p) t]\<rparr>"
    have "stream_loop e v sx sy t (Suc p) ?s4 = Inr s'"
      using Suc.prems(1) unfolding stream_loop_full [OF p ge t] by (simp add: rb)
    moreover have "length (frame_buffer ?s4) < batch_size"
      by (simp add: batch_size_def)
    ultimately have "loop_post e v sx sy t (Suc p) ?s4 s'"
      using Suc.hyps(1) [OF n] by blast
    then show ?thesis
      by (rule loop_post_full [OF p t full rb])
  qed
qed


subsection \<open>When the loop and the run return\<close>


lemma run_batch_returns:
  assumes "list_all (\<lambda>f. \<not> isl (process_frame e f sx sy)) (frame_buffer s)"
  shows "\<exists>s'. run_batch e sx sy s = Inr s'"
proof -
  have "\<forall>f \<in> set (frame_buffer s). \<not> isl (process_frame e f sx sy)"
    using assms by (simp add: list_all_iff)
  then have "map (\<lambda>f. process_frame e f sx sy) (frame_buffer s)
      = map Inr (map (\<lambda>f. projr (process_frame e f sx sy)) (frame_buffer s))"
    by (rule all_returned)
  then show ?thesis
    unfolding run_batch_Inr by blast
qed

lemma stream_loop_returns:
  "t \<noteq> 0 \<Longrightarrow>
   list_all (\<lambda>f. \<not> isl (process_frame e f sx sy)) (frame_buffer s @ drop p (frames v)) \<Longrightarrow>
   \<exists>s'. stream_loop e v sx sy t p s = Inr s'"
proof (induction "length (frames v) - p" arbitrary: p s)
  case 0
  then have eof: "length (frames v) \<le> p" by simp
  have "list_all (\<lambda>f. \<not> isl (process_frame e f sx sy)) (frame_buffer s)"
    using "0.prems"(2) by simp
  then obtain s' where "run_batch e sx sy s = Inr s'"
    using run_batch_returns by blast
  then show ?case
    by (simp add: stream_loop_eof [OF eof])
next
  case (Suc n)
  then have p: "p < length (frames v)" and n: "n = length (frames v) - Suc p"
    by simp_all
  have d: "drop p (frames v) = frames v ! p # drop (Suc p) (frames v)"
    using p by (simp add: Cons_nth_drop_Suc)
  have all: "list_all (\<lambda>f. \<not> isl (process_frame e f sx sy)) (frame_buffer s @ [frames v ! p])"
    and rest: "list_all (\<lambda>f. \<not> isl (process_frame e f sx sy)) (drop (Suc p) (frames v))"
    using Suc.prems(2) by (simp_all add: d)
  show ?case
  proof (cases "Suc (length (frame_buffer s)) < batch_size")
    case True
    let ?s1 = "s\<lparr>frame_buffer := frame_buffer s @ [frames v ! p],
            progress_file := progress_file s @ progress_line (percent (Suc p) t),
            reported := reported s @ [percent (Suc p) t]\<rparr>"
    have "list_all (\<lambda>f. \<not> isl (process_frame e f sx sy)) (frame_buffer ?s1 @ drop (Suc p) (frames v))"
      using all rest by simp
    then have "\<exists>s'. stream_loop e v sx sy t (Suc p) ?s1 = Inr s'"
      using Suc.hyps(1) [OF n Suc.prems(1)] by blast
    then show ?thesis
      by (simp add: stream_loop_part [OF p True Suc.prems(1)])
  next
    case False
    then have ge: "batch_size \<le> Suc (length (frame_buffer s))" by simp
    have "list_all (\<lambda>f. \<not> isl (process_frame e f sx sy))
            (frame_buffer (s\<lparr>frame_buffer := frame_buffer s @ [frames v ! p]\<rparr>))"
      using all by simp
    then obtain s2 where rb:
      "run_batch e sx sy (s\<lparr>frame_buffer := frame_buffer s @ [frames v ! p]\<rparr>) = Inr s2"
      using run_batch_returns by blast
    let ?s4 = "s2\<lparr>frame_buffer := [],
             progress_file := progress_file s2 @ progress_line (percent (Suc p) t),
             reported := reported s2 @ [percent (Suc p) t]\<rparr>"
    have "list_all (\<lambda>f. \<not> isl (process_frame e f sx sy)) (frame_buffer ?s4 @ drop (Suc p) (frames v))"
      using rest by simp
    then have "\<exists>s'. stream_loop e v sx sy t (Suc p) ?s4 = Inr s'"
      using Suc.hyps(1) [OF n Suc.prems(1)] by blast
    then show ?thesis
      by (simp add: stream_loop_full [OF p ge Suc.prems(1)] rb)
  qed
qed

lemma statistics_eq:
  "statistics n t = Inr (if 0 < t then of_nat n / t else 0, if 0 < n then t / of_nat n else 0)"
  by (simp add: statistics_def py_div_def)

lemma process_video_stream:
  assumes "path_exists v" "can_open v" "frames v \<noteq> []"
    and "cvtColor e (hd (frames v)) COLOR_BGR2RGB = Inr rgb"
    and "seam_carve e rgb sx sy = Inr (Some carved)"
  shows "process_video e v sx sy =
     (case stream_loop e v sx sy (prop_frame_count v) 0 (initial_state e v carved) of
        Inl err \<Rightarrow> Crashed err
      | Inr s \<Rightarrow>
          Done s (time_end e - time_start e)
            (if 0 < time_end e - time_start e
             then of_nat (total_processed_frames s) / (time_end e - time_start e) else 0,
             if 0 < total_processed_frames s
             then (time_end e - time_start e) / of_nat (total_processed_frames s) else 0))"
proof -
  have "cap_read v 0 = (Some (hd (frames v)), Suc 0)"
    using assms(3) by (simp add: cap_read_def hd_conv_nth)
  then show ?thesis
    using assms unfolding process_video_def
    by (simp add: Let_def initial_state_def statistics_eq split: sum.splits)
qed

lemma process_video_Done:
  assumes "process_video e v sx sy = Done s tt st"
  shows "path_exists v \<and> can_open v \<and> frames v \<noteq> []
    \<and> (\<exists>rgb carved. cvtColor e (hd (frames v)) COLOR_BGR2RGB = Inr rgb
          \<and> seam_carve e rgb sx sy = Inr (Some carved)
          \<and> stream_loop e v sx sy (prop_frame_count v) 0 (initial_state e v carved) = Inr s)
    \<and> tt = time_end e - time_start e
    \<and> st = (if 0 < tt then of_nat (total_processed_frames s) / tt else 0,
             if 0 < total_processed_frames s then tt / of_nat (total_processed_frames s) else 0)"
proof -
  have a: "path_exists v" "can_open v"
    using assms unfolding process_video_def by (auto split: if_splits)
  have b: "frames v \<noteq> []"
    using assms a unfolding process_video_def by (auto simp: cap_read_def)
  obtain rgb where rgb: "cvtColor e (hd (frames v)) COLOR_BGR2RGB = Inr rgb"
    using assms a b unfolding process_video_def
    by (cases "cvtColor e (hd (frames v)) COLOR_BGR2RGB") (auto simp: cap_read_def hd_conv_nth)
  obtain carved where carved: "seam_carve e rgb sx sy = Inr (Some carved)"
    using assms a b rgb unfolding process_video_def
    by (cases "seam_carve e rgb sx sy")
       (auto simp: cap_read_def hd_conv_nth split: option.splits)
  show ?thesis
    using assms a b rgb carved unfolding process_video_stream [OF a b rgb carved]
    by (auto split: sum.splits)
qed

lemma process_frame_Some:
  "process_frame e f sx sy = Inr (Some y) \<Longrightarrow>
     \<exists>rgb carved. cvtColor e f COLOR_BGR2RGB = Inr rgb \<and> seam_carve e rgb sx sy = Inr (Some carved)"
  unfolding process_frame_def by (auto split: sum.splits option.splits)

lemma process_video_completes:
  assumes "path_exists v" "can_open v" "frames v \<noteq> []" "prop_frame_count v \<noteq> 0"
    and "list_all (\<lambda>f. \<not> isl (process_frame e f sx sy)) (frames v)"
    and "process_frame e (hd (frames v)) sx sy \<noteq> Inr None"
  shows "\<exists>s tt st. process_video e v sx sy = Done s tt st"
proof -
  have "\<not> isl (process_frame e (hd (frames v)) sx sy)"
    using assms(3,5) by (cases "frames v") simp_all
  then obtain y where "process_frame e (hd (frames v)) sx sy = Inr (Some y)"
    using assms(6) by (cases "process_frame e (hd (frames v)) sx sy") auto
  then obtain rgb carved where pr: "cvtColor e (hd (frames v)) COLOR_BGR2RGB = Inr rgb"
    "seam_carve e rgb sx sy = Inr (Some carved)"
    using process_frame_Some by blast
  have "list_all (\<lambda>f. \<not> isl (process_frame e f sx sy))
          (frame_buffer (initial_state e v carved) @ drop 0 (frames v))"
    using assms(5) by (simp add: initial_state_def)
  then obtain s where "stream_loop e v sx sy (prop_frame_count v) 0 (initial_state e v carved) = Inr s"
    using stream_loop_returns [OF assms(4)] by blast
  then show ?thesis
    by (simp add: process_video_stream [OF assms(1-3) pr])
qed

lemma length_chunks:
  "0 < n \<Longrightarrow> map length (chunks n xs) =
     replicate (length xs div n) n @ (if length xs mod n = 0 then [] else [length xs mod n])"
proof (induction n xs rule: chunks.induct)
  case (1 n xs)
  show ?case
  proof (cases "xs = []")
    case True
    then show ?thesis by simp
  next
    case False
    have c: "chunks n xs = take n xs # chunks n (drop n xs)"
      using False "1.prems" by (subst chunks.simps) simp
    have ih: "map length (chunks n (drop n xs)) =
        replicate (length (drop n xs) div n) n
        @ (if length (drop n xs) mod n = 0 then [] else [length (drop n xs) mod n])"
      using "1.IH" False "1.prems" by simp
    show ?thesis
    proof (cases "length xs < n")
      case True
      then show ?thesis
        using False by (simp add: c)
    next
      case False
      then have "length xs div n = Suc ((length xs - n) div n)"
        and "length xs mod n = (length xs - n) mod n"
        using "1.prems" by (simp_all add: le_div_geq le_mod_geq)
      then show ?thesis
        using False by (simp add: c ih min_def)
    qed
  qed
qed


subsection \<open>The final state of a run\<close>


lemma run_facts:
  assumes "process_video e v sx sy = Done s tt st"
  shows "\<exists>rgb carved. cvtColor e (hd (frames v)) COLOR_BGR2RGB = Inr rgb
           \<and> seam_carve e rgb sx sy = Inr (Some carved)
           \<and> loop_post e v sx sy (prop_frame_count v) 0 (initial_state e v carved) s"
proof -
  from process_video_Done [OF assms] obtain rgb carved where
    pr: "cvtColor e (hd (frames v)) COLOR_BGR2RGB = Inr rgb"
      "seam_carve e rgb sx sy = Inr (Some carved)"
    and loop: "stream_loop e v sx sy (prop_frame_count v) 0 (initial_state e v carved) = Inr s"
    by blast
  have "length (frame_buffer (initial_state e v carved)) < batch_size"
    by (simp add: initial_state_def batch_size_def)
  with loop have "loop_post e v sx sy (prop_frame_count v) 0 (initial_state e v carved) s"
    by (rule stream_loop_post)
  with pr show ?thesis by blast
qed

lemma loop_post_initial:
  assumes "loop_post e v sx sy t 0 (initial_state e v carved) s"
  shows "list_all (\<lambda>f. \<not> isl (process_frame e f sx sy)) (frames v)"
    and "t \<noteq> 0 \<or> frames v = []"
    and "out s = successes e sx sy (frames v)"
    and "total_processed_frames s = length (out s)"
    and "batches s = chunks batch_size (frames v)"
    and "reported s = percentages t 0 (length (frames v))"
    and "progress_file s = concat (map progress_line (reported s))"
    and "out_size s = (width carved, height carved)"
    and "out_fps s = prop_fps v"
  using assms unfolding loop_post_def Let_def initial_state_def by simp_all

lemma run_completes:
  assumes "path_exists v" "can_open v" "frames v \<noteq> []" "prop_frame_count v \<noteq> 0"
    and "list_all (\<lambda>f. \<not> isl (process_frame e f sx sy)) (frames v)"
    and "process_frame e (hd (frames v)) sx sy \<noteq> Inr None"
  shows "\<exists>s tt st carved. process_video e v sx sy = Done s tt st
           \<and> loop_post e v sx sy (prop_frame_count v) 0 (initial_state e v carved) s"
proof -
  from process_video_completes [OF assms] obtain s tt st
    where d: "process_video e v sx sy = Done s tt st"
    by blast
  from run_facts [OF d] d show ?thesis by blast
qed

lemma successes_transform:
  "list_all (\<lambda>f. process_frame e f sx sy = Inr (transform f)) fs \<Longrightarrow>
     successes e sx sy fs = not_none (map transform fs)"
proof (induction fs)
  case Nil
  show ?case by (simp add: not_none_def List.map_filter_simps)
next
  case (Cons f fs)
  then show ?case
    by (cases "transform f") (simp_all add: successes_Cons not_none_def List.map_filter_simps)
qed

lemma not_none_append: "not_none (xs @ ys) = not_none xs @ not_none ys"
  by (simp add: not_none_def List.map_filter_def)

lemma successes_concat: "concat (map (successes e sx sy) bs) = successes e sx sy (concat bs)"
  by (induction bs) (simp_all add: successes_append)

lemma percent_nonneg: "0 < t \<Longrightarrow> 0 \<le> percent k t"
proof -
  assume "0 < t"
  then have "0 \<le> round_double (of_nat k / of_int t)"
    by (intro round_double_nonneg) simp
  then have "0 \<le> round_double (of_nat k / of_int t) * 100"
    by simp
  then show ?thesis
    unfolding percent_def by (rule round_double_nonneg)
qed

lemma percent_mono: "0 < t \<Longrightarrow> j \<le> k \<Longrightarrow> percent j t \<le> percent k t"
proof -
  assume t: "0 < t" and jk: "j \<le> k"
  have "rat_of_nat j / of_int t \<le> of_nat k / of_int t"
    using t jk by (simp add: divide_right_mono)
  moreover have "0 \<le> rat_of_nat j / of_int t"
    using t by simp
  ultimately have q: "round_double (of_nat j / of_int t) \<le> round_double (of_nat k / of_int t)"
    by (intro round_double_mono_nonneg)
  have "0 \<le> round_double (of_nat j / of_int t)"
    using t by (intro round_double_nonneg) simp
  then have "0 \<le> round_double (of_nat j / of_int t) * 100"
    by simp
  moreover have "round_double (of_nat j / of_int t) * 100 \<le> round_double (of_nat k / of_int t) * 100"
    using q by simp
  ultimately show ?thesis
    unfolding percent_def by (rule round_double_mono_nonneg)
qed

lemma percent_all: "0 < n \<Longrightarrow> percent n (int n) = 100"
  by (simp add: percent_def round_double_1 round_double_100)

lemma sorted_percentages: "0 < t \<Longrightarrow> sorted (percentages t p n)"
proof -
  assume t: "0 < t"
  have "sorted_wrt (\<lambda>j k. percent j t \<le> percent k t) [Suc p..<Suc n]"
  proof (rule sorted_wrt_mono_rel [of _ "(\<le>)"])
    fix j k :: nat
    assume "j \<le> k"
    then show "percent j t \<le> percent k t"
      using t by (intro percent_mono)
  next
    show "sorted_wrt (\<le>) [Suc p..<Suc n]"
      by (rule sorted_upt)
  qed
  then show ?thesis
    by (simp add: percentages_def sorted_map)
qed

lemma last_percentages:
  "0 < n \<Longrightarrow> percentages t 0 n \<noteq> [] \<and> last (percentages t 0 n) = percent n t"
  by (simp add: percentages_def last_map)

subsection \<open>Truncation towards zero\<close>

lemma truncate_rat_nonneg: "0 \<le> x \<Longrightarrow> 0 \<le> truncate_rat x \<and> of_int (truncate_rat x) \<le> x \<and> x < of_int (truncate_rat x) + 1"
  unfolding truncate_rat_def using floor_correct [of x] by simp

lemma truncate_rat_neg: "x < 0 \<Longrightarrow> truncate_rat x \<le> 0 \<and> x \<le> of_int (truncate_rat x) \<and> of_int (truncate_rat x) - 1 < x"
  unfolding truncate_rat_def using ceiling_correct [of x] by (simp add: ceiling_le_zero)

lemma truncate_rat_abs_le: "\<bar>of_int (truncate_rat x)\<bar> \<le> \<bar>x\<bar>"
proof (cases "0 \<le> x")
  case True
  from truncate_rat_nonneg [OF True] show ?thesis by simp
next
  case False
  then have "x < 0" by simp
  from truncate_rat_neg [OF this] show ?thesis by simp
qed

lemma truncate_rat_abs_gt: "\<bar>x\<bar> < \<bar>of_int (truncate_rat x)\<bar> + 1"
proof (cases "0 \<le> x")
  case True
  from truncate_rat_nonneg [OF True] show ?thesis by simp
next
  case False
  then have "x < 0" by simp
  from truncate_rat_neg [OF this] show ?thesis by simp
qed

lemma truncate_rat_sign: "0 \<le> of_int (truncate_rat x) * x"
proof (cases "0 \<le> x")
  case True
  from truncate_rat_nonneg [OF True] show ?thesis using True by simp
next
  case False
  then have "x < 0" by simp
  from truncate_rat_neg [OF this] show ?thesis using \<open>x < 0\<close>
    by (simp add: mult_nonpos_nonpos)
qed


subsection \<open>Doubles that are exact\<close>

lemma round_double_0 [simp]: "round_double 0 = 0"
  by (simp add: round_double_def round_magnitude_def)

lemma round_double_small_int:
  assumes "0 < n" "n < 2 ^ 53"
  shows "round_double (of_int n) = of_int n"
proof -
  define k where "k = binade (of_int n)"
  have pos: "(0::rat) < of_int n" using assms(1) by simp
  note b = binade_bounds [OF pos, folded k_def]
  have k0: "0 \<le> k"
    using assms(1) unfolding k_def binade_def by (simp add: floor_log2_bounds)
  have k52: "k \<le> 52"
  proof (rule ccontr)
    assume "\<not> k \<le> 52"
    then have "(2::rat) powi 53 \<le> 2 powi k"
      by (intro power_int_increasing) simp_all
    then have "(2::rat) ^ 53 \<le> of_int n" using b by simp
    then have "rat_of_int (2 ^ 53) \<le> of_int n" by simp
    then have "2 ^ 53 \<le> n" by (simp only: of_int_le_iff)
    then show False using assms(2) by simp
  qed
  have "(2::rat) powi (k - 52) * 2 powi (52 - k) = 2 powi 0"
    by (simp flip: power_int_add)
  then have inv: "(2::rat) powi (k - 52) * 2 powi (52 - k) = 1"
    by simp
  have "rat_of_int n / 2 powi (k - 52) = of_int n * 2 powi (52 - k)"
    using inv by (simp add: field_simps)
  also have "\<dots> = of_int n * of_int (2 ^ nat (52 - k))"
    using k52 by (simp add: power_int_def)
  also have "\<dots> = of_int (n * 2 ^ nat (52 - k))"
    by simp
  finally have m: "rat_of_int n / 2 powi (k - 52) = of_int (n * 2 ^ nat (52 - k))" .
  show ?thesis
    using b k0 m by (intro round_double_exactI [of k _ "n * 2 ^ nat (52 - k)"]) simp_all
qed

lemma small_below_largest: "n < 2 ^ 53 \<Longrightarrow> rat_of_nat n \<le> largest_double"
proof -
  assume "n < 2 ^ 53"
  then have "rat_of_nat n < of_nat (2 ^ 53)" by (simp only: of_nat_less_iff)
  moreover have "rat_of_nat (2 ^ 53) \<le> largest_double" by (simp add: largest_double_def)
  ultimately show ?thesis by simp
qed

lemma float_result_small: "n < 2 ^ 53 \<Longrightarrow> float_result (of_nat n) = Finite (of_nat n)"
proof -
  assume n: "n < 2 ^ 53"
  have "(0::rat) \<le> largest_double" by (simp add: largest_double_def)
  then have neg: "\<not> rat_of_nat n < - largest_double"
    by (simp add: order.trans [of "- largest_double" 0] not_less)
  have r: "round_double (of_nat n) = of_nat n"
  proof (cases "n = 0")
    case True
    then show ?thesis by simp
  next
    case False
    then have "0 < int n" "int n < 2 ^ 53" using n by simp_all
    from round_double_small_int [OF this] show ?thesis by simp
  qed
  show ?thesis
    using small_below_largest [OF n] neg by (simp add: float_result_def r not_less)
qed

lemma float_of_int_small: "n < 2 ^ 53 \<Longrightarrow> float_of_int (int n) = Inr (Finite (of_nat n))"
  using float_result_small [of n] by (simp add: float_of_int_def)

lemma new_width_unit: "width img < 2 ^ 53 \<Longrightarrow> new_width img (Finite 1) = Inr (int (width img))"
  by (simp add: new_width_def float_of_int_small float_result_small py_int_def truncate_rat_def)

lemma new_height_unit: "height img < 2 ^ 53 \<Longrightarrow> new_height img (Finite 1) = Inr (int (height img))"
  by (simp add: new_height_def float_of_int_small float_result_small py_int_def truncate_rat_def)

lemma new_width_half: "width img = 4 \<Longrightarrow> new_width img (Finite (1 / 2)) = Inr 2"
proof -
  assume w: "width img = 4"
  have a: "float_of_int (int (width img)) = Inr (Finite 4)"
    using float_of_int_small [of 4] w by simp
  have b: "float_result 2 = Finite 2"
    using float_result_small [of 2] by simp
  show ?thesis
    by (simp add: new_width_def a b py_int_def truncate_rat_def)
qed

lemma new_width_raises:
  assumes "float_of_int (int (width img)) = Inr w"
  shows "float_mul w scale_x = NaN \<Longrightarrow> new_width img scale_x = Inl ValueError"
    and "float_mul w scale_x = PosInf \<Longrightarrow> new_width img scale_x = Inl OverflowError"
    and "float_mul w scale_x = NegInf \<Longrightarrow> new_width img scale_x = Inl OverflowError"
  using assms by (simp_all add: new_width_def py_int_def)

lemma new_height_raises:
  assumes "float_of_int (int (height img)) = Inr h"
  shows "float_mul h scale_y = NaN \<Longrightarrow> new_height img scale_y = Inl ValueError"
    and "float_mul h scale_y = PosInf \<Longrightarrow> new_height img scale_y = Inl OverflowError"
    and "float_mul h scale_y = NegInf \<Longrightarrow> new_height img scale_y = Inl OverflowError"
  using assms by (simp_all add: new_height_def py_int_def)

lemma double_029: "round_double (29 / 100) = 5224175567749775 / 2 ^ 54"
proof -
  have "round_half_even ((29 / 100) / 2 powi (- 2 - 52)) = 5224175567749775"
    by (rule round_half_even_near) simp_all
  from round_double_evalI [of "- 2" "29 / 100", OF _ _ _ this] show ?thesis
    by simp
qed

lemma double_100_029: "round_double (100 * (5224175567749775 / 2 ^ 54)) = 8162774324609023 / 2 ^ 48"
proof -
  have "round_half_even ((100 * (5224175567749775 / 2 ^ 54)) / 2 powi (4 - 52)) = 8162774324609023"
    by (rule round_half_even_near) simp_all
  from round_double_evalI [of 4 "100 * (5224175567749775 / 2 ^ 54)", OF _ _ _ this] show ?thesis
    by simp
qed


lemma percentages_two:
  "length fs = 2 \<Longrightarrow> percentages t 0 (length fs) = [percent 1 t, percent 2 t]"
proof -
  assume "length fs = 2"
  moreover have "[Suc 0..<Suc 2] = [1, 2]"
    by (simp add: upt_rec)
  ultimately show ?thesis
    by (simp only: percentages_def list.map)
qed

lemma percentages_four:
  "length fs = 4 \<Longrightarrow>
     percentages t 0 (length fs) = [percent 1 t, percent 2 t, percent 3 t, percent 4 t]"
proof -
  assume "length fs = 4"
  moreover have "[Suc 0..<Suc 4] = [1, 2, 3, 4]"
    by (simp add: upt_rec)
  ultimately show ?thesis
    by (simp only: percentages_def list.map)
qed

lemma round_double_quarter: "round_double (1 / 4) = 1 / 4"
  by (rule round_double_exactI [of "- 2" _ "2 ^ 52"]) simp_all

lemma round_double_three_quarters: "round_double (3 / 4) = 3 / 4"
  by (rule round_double_exactI [of "- 1" _ "3 * 2 ^ 51"]) simp_all

lemma round_double_25: "round_double 25 = 25"
  by (rule round_double_exactI [of 4 _ "25 * 2 ^ 48"]) simp_all

lemma round_double_75: "round_double 75 = 75"
  by (rule round_double_exactI [of 6 _ "75 * 2 ^ 46"]) simp_all

lemma round_double_200: "round_double 200 = 200"
  by (rule round_double_exactI [of 7 _ "200 * 2 ^ 45"]) simp_all

lemma round_double_2: "round_double 2 = 2"
  by (rule round_double_exactI [of 1 _ "2 ^ 52"]) simp_all

lemma round_double_minus: "round_double (- x) = - round_double x"
  by (cases "x = 0") (auto simp: round_double_def round_magnitude_def)

lemma percent_values:
  "percent 1 2 = 50" "percent 2 2 = 100" "percent 1 4 = 25" "percent 2 4 = 50"
  "percent 3 4 = 75" "percent 4 4 = 100" "percent 1 (- 1) = - 100" "percent 2 (- 1) = - 200"
  by (simp_all add: percent_def round_double_half round_double_quarter
      round_double_three_quarters round_double_1 round_double_2 round_double_25 round_double_50
      round_double_75 round_double_100 round_double_200 round_double_minus)

subsection \<open>Evaluation in the concrete world\<close>


lemma string_of_nat_digit: "n < 10 \<Longrightarrow> string_of_nat n = [digit_char n]"
  by (subst string_of_nat.simps) simp

lemma string_of_nat_more:
  "10 \<le> n \<Longrightarrow> string_of_nat n = string_of_nat (n div 10) @ [digit_char (n mod 10)]"
  by (subst string_of_nat.simps) simp

lemma format_2f_100: "format_2f 100 = ''100.00''"
proof -
  have "round_half_even (\<bar>100\<bar> * 100) = 10000"
    using round_half_even_of_int [of 10000] by simp
  then show ?thesis
    by (simp add: format_2f_def string_of_nat_digit string_of_nat_more digit_char_def)
qed

text \<open>The percentages are the doubles, not the exact quotients: after 23 of 160
  frames the exact percentage is 14.375, the double is just below it, and the line
  written is \<open>14.37\<close>.\<close>

lemma double_23_160: "round_double (23 / 160) = 5179139571476070 / 2 ^ 55"
proof -
  have "round_half_even ((23 / 160) / 2 powi (- 3 - 52)) = 5179139571476070"
    by (rule round_half_even_near) simp_all
  from round_double_evalI [of "- 3" "23 / 160", OF _ _ _ this] show ?thesis
    by simp
qed

lemma double_23_160_100:
  "round_double (5179139571476070 / 2 ^ 55 * 100) = 8092405580431359 / 2 ^ 49"
proof -
  have "round_half_even ((5179139571476070 / 2 ^ 55 * 100) / 2 powi (3 - 52))
      = 8092405580431359"
    by (rule round_half_even_near) simp_all
  from round_double_evalI [of 3 "5179139571476070 / 2 ^ 55 * 100", OF _ _ _ this]
  show ?thesis
    by simp
qed

lemma percent_23_160: "percent 23 160 = 8092405580431359 / 2 ^ 49"
proof -
  have "round_double (rat_of_nat 23 / rat_of_int 160) = 5179139571476070 / 2 ^ 55"
    using double_23_160 by simp
  then show ?thesis
    unfolding percent_def by (simp only: double_23_160_100)
qed

lemma format_2f_23_160: "format_2f (percent 23 160) = ''14.37''"
proof -
  have "round_half_even (\<bar>8092405580431359 / 2 ^ 49\<bar> * 100) = 1437"
    by (rule round_half_even_near) simp_all
  then show ?thesis
    unfolding percent_23_160
    by (simp add: format_2f_def string_of_nat_digit string_of_nat_more digit_char_def)
qed


lemma format_2f_25: "format_2f 25 = ''25.00''"
proof -
  have "round_half_even (\<bar>25\<bar> * 100) = 2500"
    using round_half_even_of_int [of 2500] by simp
  then show ?thesis
    by (simp add: format_2f_def string_of_nat_digit string_of_nat_more digit_char_def)
qed

lemma format_2f_50: "format_2f 50 = ''50.00''"
proof -
  have "round_half_even (\<bar>50\<bar> * 100) = 5000"
    using round_half_even_of_int [of 5000] by simp
  then show ?thesis
    by (simp add: format_2f_def string_of_nat_digit string_of_nat_more digit_char_def)
qed

lemma toy_process_frame:
  "process_frame (toy_env order) (toy_frame n) (Finite 1) (Finite 1) = Inr (Some (toy_frame n))"
  by (simp add: process_frame_def seam_carve_def new_width_unit new_height_unit toy_env_def
      toy_frame_def)

text \<open>The size handed to the library has the target height first. The stand-in
  library reads a size as (width, height): asked to halve the width of a frame of 4 by
  4, \<open>seam_carve\<close> returns a frame of width 4 and height 2.\<close>

lemma seam_carve_size:
  assumes "new_width img scale_x = Inr nw" "new_height img scale_y = Inr nh"
  shows "seam_carve e img scale_x scale_y = resize e img (nh, nw)"
  using assms by (simp add: seam_carve_def)

lemma toy_seam_carve_half:
  "seam_carve (toy_env order) (toy_frame n) (Finite (1 / 2)) (Finite 1)
     = Inr (Some \<lparr>height = 2, width = 4, pixels = [n, Suc n]\<rparr>)"
proof -
  have "new_width (toy_frame n) (Finite (1 / 2)) = Inr 2"
    "new_height (toy_frame n) (Finite 1) = Inr 4"
    by (simp_all add: new_width_half new_height_unit toy_frame_def)
  from seam_carve_size [OF this] show ?thesis
    by (simp add: toy_env_def toy_frame_def)
qed

lemma toy_process_blank: "process_frame (toy_env order) toy_blank (Finite 1) (Finite 1) = Inr None"
  by (simp add: process_frame_def seam_carve_def new_width_unit new_height_unit toy_env_def
      toy_blank_def)

lemma toy_process_broken:
  "process_frame (toy_env order) toy_broken (Finite 1) (Finite 1) = Inl (Raised ''empty source'')"
  by (simp add: process_frame_def seam_carve_def new_width_unit new_height_unit toy_env_def
      toy_broken_def)

lemma toy_all_return:
  "list_all (\<lambda>f. \<not> isl (process_frame (toy_env order) f (Finite 1) (Finite 1))) (map toy_frame ns)"
  by (induction ns) (simp_all add: toy_process_frame)

lemma toy_successes: "successes (toy_env order) (Finite 1) (Finite 1) (map toy_frame ns) = map toy_frame ns"
  by (induction ns) (simp_all add: successes_Cons toy_process_frame)


subsection \<open>Runs in the concrete world\<close>


lemma toy_video_sel [simp]:
  "path_exists (toy_video count fs)" "can_open (toy_video count fs)"
  "prop_fps (toy_video count fs) = 25" "prop_frame_count (toy_video count fs) = count"
  "frames (toy_video count fs) = fs"
  by (simp_all add: toy_video_def)

lemma toy_run:
  assumes "count \<noteq> 0" "ns \<noteq> []"
  shows "\<exists>s tt st carved.
           process_video (toy_env order) (toy_video count (map toy_frame ns)) (Finite 1) (Finite 1) = Done s tt st
           \<and> loop_post (toy_env order) (toy_video count (map toy_frame ns)) (Finite 1) (Finite 1) count 0
                (initial_state (toy_env order) (toy_video count (map toy_frame ns)) carved) s"
proof -
  let ?v = "toy_video count (map toy_frame ns)"
  have "path_exists ?v" "can_open ?v" "frames ?v \<noteq> []" "prop_frame_count ?v \<noteq> 0"
    "list_all (\<lambda>f. \<not> isl (process_frame (toy_env order) f (Finite 1) (Finite 1))) (frames ?v)"
    "process_frame (toy_env order) (hd (frames ?v)) (Finite 1) (Finite 1) \<noteq> Inr None"
    using assms by (simp_all add: toy_all_return hd_map toy_process_frame)
  from run_completes [OF this] show ?thesis
    by simp
qed

lemma percentages_nth:
  "percentages t 0 n = map (\<lambda>k. percent (Suc k) t) [0..<n]"
proof -
  have "[Suc 0..<Suc n] = map Suc [0..<n]"
    by (simp only: map_Suc_upt)
  then show ?thesis
    by (simp add: percentages_def o_def)
qed




lemma length_chunks_count:
  "0 < n \<Longrightarrow> length (chunks n xs) = length xs div n + (if length xs mod n = 0 then 0 else 1)"
proof -
  assume "0 < n"
  then have "length (map length (chunks n xs)) =
      length (replicate (length xs div n) n @ (if length xs mod n = 0 then [] else [length xs mod n]))"
    by (simp only: length_chunks)
  then show ?thesis
    by (simp split: if_splits)
qed



subsection \<open>Order of the reported values\<close>


lemma percentages_nonneg: "0 < t \<Longrightarrow> q \<in> set (percentages t p n) \<Longrightarrow> 0 \<le> q"
  by (auto simp: percentages_def percent_nonneg)

lemma sorted_map_mono:
  "sorted xs \<Longrightarrow> (\<And>x y. x \<in> set xs \<Longrightarrow> y \<in> set xs \<Longrightarrow> x \<le> y \<Longrightarrow> f x \<le> f y)
     \<Longrightarrow> sorted (map f xs)"
  by (induction xs) auto



subsection \<open>Frames that fail\<close>


lemma not_none_simps [simp]:
  "not_none [] = []" "not_none (None # rs) = not_none rs" "not_none (Some y # rs) = y # not_none rs"
  by (simp_all add: not_none_def List.map_filter_simps)

lemma not_none_skip:
  assumes "k < length rs" "rs ! k = None"
  shows "not_none rs = not_none (take k rs) @ not_none (drop (Suc k) rs)"
proof -
  have "rs = take k rs @ None # drop (Suc k) rs"
    using id_take_nth_drop [OF assms(1)] assms(2) by simp
  then have "not_none rs = not_none (take k rs @ None # drop (Suc k) rs)"
    by simp
  then show ?thesis
    by (simp add: not_none_append)
qed

lemma raising_frame_ends_run:
  assumes "\<not> list_all (\<lambda>f. \<not> isl (process_frame e f sx sy)) (frames v)"
  shows "final_state (process_video e v sx sy) = None"
proof (cases "process_video e v sx sy")
  case (Done s tt st)
  from run_facts [OF Done] obtain carved where
    "loop_post e v sx sy (prop_frame_count v) 0 (initial_state e v carved) s"
    by blast
  from loop_post_initial(1) [OF this] assms show ?thesis
    by simp
qed (simp_all add: final_state_def)

lemma stream_loop_Inl:
  "stream_loop e v sx sy t p s = Inl err \<Longrightarrow>
     (err = ZeroDivisionError \<and> t = 0)
     \<or> (\<exists>f \<in> set (frame_buffer s @ drop p (frames v)). process_frame e f sx sy = Inl err)"
proof (induction "length (frames v) - p" arbitrary: p s)
  case 0
  then have eof: "length (frames v) \<le> p" by simp
  have "run_batch e sx sy s = Inl err"
    using "0.prems" by (simp add: stream_loop_eof [OF eof] split: if_splits)
  from run_batch_Inl [OF this] show ?case
    by auto
next
  case (Suc n)
  then have p: "p < length (frames v)" and n: "n = length (frames v) - Suc p"
    by simp_all
  have d: "drop p (frames v) = frames v ! p # drop (Suc p) (frames v)"
    using p by (simp add: Cons_nth_drop_Suc)
  show ?case
  proof (cases "t = 0")
    case True
    have "Suc (length (frame_buffer s)) < batch_size \<or> batch_size \<le> Suc (length (frame_buffer s))"
      by linarith
    then show ?thesis
    proof
      assume "Suc (length (frame_buffer s)) < batch_size"
      then have "stream_loop e v sx sy t p s = Inl ZeroDivisionError"
        using p True by (subst stream_loop.simps) (simp add: cap_read_def int_truediv_def percent_def Let_def)
      then show ?thesis
        using Suc.prems True by simp
    next
      assume ge: "batch_size \<le> Suc (length (frame_buffer s))"
      show ?thesis
      proof (cases "run_batch e sx sy (s\<lparr>frame_buffer := frame_buffer s @ [frames v ! p]\<rparr>)")
        case (Inl err')
        then have "stream_loop e v sx sy t p s = Inl err'"
          using p ge by (subst stream_loop.simps) (simp add: cap_read_def Let_def)
        then have "run_batch e sx sy (s\<lparr>frame_buffer := frame_buffer s @ [frames v ! p]\<rparr>) = Inl err"
          using Inl Suc.prems by simp
        from run_batch_Inl [OF this] show ?thesis
          by (auto simp: d)
      next
        case (Inr s2)
        then have "stream_loop e v sx sy t p s = Inl ZeroDivisionError"
          using p ge True
          by (subst stream_loop.simps) (simp add: cap_read_def int_truediv_def percent_def Let_def)
        then show ?thesis
          using Suc.prems True by simp
      qed
    qed
  next
    case t: False
    show ?thesis
    proof (cases "Suc (length (frame_buffer s)) < batch_size")
      case True
      let ?s1 = "s\<lparr>frame_buffer := frame_buffer s @ [frames v ! p],
            progress_file := progress_file s @ progress_line (percent (Suc p) t),
            reported := reported s @ [percent (Suc p) t]\<rparr>"
      have "stream_loop e v sx sy t (Suc p) ?s1 = Inl err"
        using Suc.prems by (simp add: stream_loop_part [OF p True t])
      from Suc.hyps(1) [OF n this] show ?thesis
        using t by (auto simp: d)
    next
      case False
      then have ge: "batch_size \<le> Suc (length (frame_buffer s))" by simp
      show ?thesis
      proof (cases "run_batch e sx sy (s\<lparr>frame_buffer := frame_buffer s @ [frames v ! p]\<rparr>)")
        case (Inl err')
        then have "run_batch e sx sy (s\<lparr>frame_buffer := frame_buffer s @ [frames v ! p]\<rparr>) = Inl err"
          using Suc.prems by (simp add: stream_loop_full [OF p ge t])
        from run_batch_Inl [OF this] show ?thesis
          by (auto simp: d)
      next
        case (Inr s2)
        let ?s4 = "s2\<lparr>frame_buffer := [],
             progress_file := progress_file s2 @ progress_line (percent (Suc p) t),
             reported := reported s2 @ [percent (Suc p) t]\<rparr>"
        have "stream_loop e v sx sy t (Suc p) ?s4 = Inl err"
          using Suc.prems by (simp add: stream_loop_full [OF p ge t] Inr)
        from Suc.hyps(1) [OF n this] show ?thesis
          using t by (auto simp: d)
      qed
    qed
  qed
qed

lemma toy_broken_batch:
  "starmap picks (\<lambda>(f, x, y). process_frame (toy_env order) f x y)
     (map (\<lambda>f. (f, Finite 1, Finite 1)) [toy_frame 1, toy_broken, toy_frame 3]) = Inl (Raised ''empty source'')"
proof (cases "starmap picks (\<lambda>(f, x, y). process_frame (toy_env order) f x y)
     (map (\<lambda>f. (f, Finite 1, Finite 1)) [toy_frame 1, toy_broken, toy_frame 3])")
  case (Inl err)
  from starmap_raises_mem [OF this] have "err = Raised ''empty source''"
    by (auto simp: toy_process_frame toy_process_broken)
  with Inl show ?thesis by simp
next
  case (Inr rs)
  then have "map (\<lambda>(f, x, y). process_frame (toy_env order) f x y)
     (map (\<lambda>f. (f, Finite 1, Finite 1)) [toy_frame 1, toy_broken, toy_frame 3]) = map Inr rs"
    by (simp only: starmap_Inr_iff)
  then have "[process_frame (toy_env order) (toy_frame 1) (Finite 1) (Finite 1),
      process_frame (toy_env order) toy_broken (Finite 1) (Finite 1),
      process_frame (toy_env order) (toy_frame 3) (Finite 1) (Finite 1)] = map Inr rs"
    by simp
  then have False
    unfolding toy_process_broken by (auto simp: Cons_eq_map_conv)
  then show ?thesis ..
qed

lemma toy_broken_run:
  "process_video (toy_env order) (toy_video 3 [toy_frame 1, toy_broken, toy_frame 3]) (Finite 1) (Finite 1)
     = Crashed (Raised ''empty source'')"
proof -
  let ?e = "toy_env order"
  let ?v = "toy_video 3 [toy_frame 1, toy_broken, toy_frame 3]"
  obtain y where "process_frame ?e (hd (frames ?v)) (Finite 1) (Finite 1) = Inr (Some y)"
    by (simp add: toy_process_frame)
  then obtain rgb carved where pr: "cvtColor ?e (hd (frames ?v)) COLOR_BGR2RGB = Inr rgb"
    "seam_carve ?e rgb (Finite 1) (Finite 1) = Inr (Some carved)"
    using process_frame_Some by blast
  have pv: "process_video ?e ?v (Finite 1) (Finite 1) =
     (case stream_loop ?e ?v (Finite 1) (Finite 1) (prop_frame_count ?v) 0 (initial_state ?e ?v carved) of
        Inl err \<Rightarrow> Crashed err
      | Inr s \<Rightarrow>
          Done s (time_end ?e - time_start ?e)
            (if 0 < time_end ?e - time_start ?e
             then of_nat (total_processed_frames s) / (time_end ?e - time_start ?e) else 0,
             if 0 < total_processed_frames s
             then (time_end ?e - time_start ?e) / of_nat (total_processed_frames s) else 0))"
    by (rule process_video_stream [OF _ _ _ pr]) simp_all
  have bad: "\<not> list_all (\<lambda>f. \<not> isl (process_frame ?e f (Finite 1) (Finite 1))) (frames ?v)"
    by (simp add: toy_process_broken)
  show ?thesis
  proof (cases "stream_loop ?e ?v (Finite 1) (Finite 1) (prop_frame_count ?v) 0 (initial_state ?e ?v carved)")
    case (Inr s)
    have "length (frame_buffer (initial_state ?e ?v carved)) < batch_size"
      by (simp add: initial_state_def batch_size_def)
    from stream_loop_post [OF Inr this] have "list_all (\<lambda>f. \<not> isl (process_frame ?e f (Finite 1) (Finite 1))) (frames ?v)"
      by (rule loop_post_initial(1))
    with bad show ?thesis ..
  next
    case (Inl err)
    from stream_loop_Inl [OF this] have "err = Raised ''empty source''"
      by (auto simp: initial_state_def toy_process_frame toy_process_broken)
    then show ?thesis
      using Inl pv by simp
  qed
qed


section \<open>The claims\<close>

subsection \<open>C1: the pool returns the results in the order of the batch\<close>

text \<open>
  C1. For every batch, every pair of scale factors and every order in which the workers
  finish: when every frame's \<open>process_frame\<close> returns (the value \<open>transform f\<close>, a
  frame or \<open>None\<close>), \<open>pool.starmap\<close> returns a list of the length of the batch whose
  entry at position \<open>i\<close> is the transform of the frame at position \<open>i\<close>. The
  sequential \<open>process_batch\<close> returns the same list.
\<close>

theorem pool_preserves_order:
  assumes "\<forall>f \<in> set batch. process_frame e f scale_x scale_y = Inr (transform f)"
  shows "\<exists>rs. starmap picks (\<lambda>(f, x, y). process_frame e f x y)
                 (map (\<lambda>f. (f, scale_x, scale_y)) batch) = Inr rs
          \<and> process_batch e batch scale_x scale_y = Inr rs
          \<and> length rs = length batch
          \<and> (\<forall>i < length batch. rs ! i = transform (batch ! i))"
proof -
  have m: "map (\<lambda>f. process_frame e f scale_x scale_y) batch = map Inr (map transform batch)"
    using assms by simp
  then have "map (\<lambda>(f, x, y). process_frame e f x y) (map (\<lambda>f. (f, scale_x, scale_y)) batch)
      = map Inr (map transform batch)"
    by (simp add: o_def)
  then have "starmap picks (\<lambda>(f, x, y). process_frame e f x y)
      (map (\<lambda>f. (f, scale_x, scale_y)) batch) = Inr (map transform batch)"
    by (rule starmap_returns)
  moreover have "process_batch e batch scale_x scale_y = Inr (map transform batch)"
    using m by (simp add: process_batch_def comprehension_Inr_iff)
  ultimately show ?thesis
    by simp
qed

theorem pool_preserves_order_witness:
  "process_frame (toy_env []) (toy_frame 1) (Finite (1 / 2)) (Finite 1) = Inr (Some ((toy_frame 1)\<lparr>height := 2\<rparr>))
   \<and> process_frame (toy_env []) (toy_frame 2) (Finite (1 / 2)) (Finite 1) = Inr (Some ((toy_frame 2)\<lparr>height := 2\<rparr>))
   \<and> process_frame (toy_env []) (toy_frame 3) (Finite (1 / 2)) (Finite 1) = Inr (Some ((toy_frame 3)\<lparr>height := 2\<rparr>))
   \<and> (\<exists>rs. starmap [2, 0, 1] (\<lambda>(f, x, y). process_frame (toy_env []) f x y)
              (map (\<lambda>f. (f, Finite (1 / 2), Finite 1)) [toy_frame 1, toy_frame 2, toy_frame 3]) = Inr rs
         \<and> process_batch (toy_env []) [toy_frame 1, toy_frame 2, toy_frame 3] (Finite (1 / 2)) (Finite 1) = Inr rs
         \<and> length rs = 3
         \<and> rs ! 0 = Some ((toy_frame 1)\<lparr>height := 2\<rparr>)
         \<and> rs ! 1 = Some ((toy_frame 2)\<lparr>height := 2\<rparr>)
         \<and> rs ! 2 = Some ((toy_frame 3)\<lparr>height := 2\<rparr>))"
proof -
  have h: "process_frame (toy_env []) (toy_frame n) (Finite (1 / 2)) (Finite 1)
             = Inr (Some ((toy_frame n)\<lparr>height := 2\<rparr>))" for n
    by (simp add: process_frame_def seam_carve_def new_width_half new_height_unit toy_env_def
        toy_frame_def)
  then have "\<forall>f \<in> set [toy_frame 1, toy_frame 2, toy_frame 3].
      process_frame (toy_env []) f (Finite (1 / 2)) (Finite 1) = Inr (Some (f\<lparr>height := 2\<rparr>))"
    by simp
  from pool_preserves_order [OF this, of "[2, 0, 1]"]
  obtain rs where rs:
    "starmap [2, 0, 1] (\<lambda>(f, x, y). process_frame (toy_env []) f x y)
       (map (\<lambda>f. (f, Finite (1 / 2), Finite 1)) [toy_frame 1, toy_frame 2, toy_frame 3]) = Inr rs"
    "process_batch (toy_env []) [toy_frame 1, toy_frame 2, toy_frame 3] (Finite (1 / 2)) (Finite 1) = Inr rs"
    "length rs = length [toy_frame 1, toy_frame 2, toy_frame 3]"
    "\<forall>i < length [toy_frame 1, toy_frame 2, toy_frame 3].
        rs ! i = Some (([toy_frame 1, toy_frame 2, toy_frame 3] ! i)\<lparr>height := 2\<rparr>)"
    by blast
  from rs(4) have "rs ! 0 = Some ((toy_frame 1)\<lparr>height := 2\<rparr>)"
    "rs ! 1 = Some ((toy_frame 2)\<lparr>height := 2\<rparr>)"
    "rs ! 2 = Some ((toy_frame 3)\<lparr>height := 2\<rparr>)"
    by simp_all
  then show ?thesis
    using h rs(1-3) by auto
qed

subsection \<open>C3: a source that announces zero frames\<close>

text \<open>
  C3. The claim is that a total frame count of zero gives progress reports of 0.00 and no
  division error. The code divides by the announced count without a guard: on a source
  that announces zero frames and delivers one, the first progress report raises
  \<open>ZeroDivisionError\<close> and the run ends with that exception.
\<close>

theorem zero_total_raises:
  "process_video (toy_env []) (toy_video 0 [toy_frame 1]) (Finite 1) (Finite 1)
     = Crashed ZeroDivisionError"
proof -
  let ?e = "toy_env []"
  let ?v = "toy_video 0 [toy_frame 1]"
  obtain y where "process_frame ?e (hd (frames ?v)) (Finite 1) (Finite 1) = Inr (Some y)"
    by (simp add: toy_process_frame)
  then obtain rgb carved where pr: "cvtColor ?e (hd (frames ?v)) COLOR_BGR2RGB = Inr rgb"
    "seam_carve ?e rgb (Finite 1) (Finite 1) = Inr (Some carved)"
    using process_frame_Some by blast
  have lp: "stream_loop ?e ?v (Finite 1) (Finite 1) 0 0 (initial_state ?e ?v carved)
      = Inl ZeroDivisionError"
    by (subst stream_loop.simps)
       (simp add: cap_read_def int_truediv_def initial_state_def batch_size_def Let_def)
  have "process_video ?e ?v (Finite 1) (Finite 1) =
     (case stream_loop ?e ?v (Finite 1) (Finite 1) (prop_frame_count ?v) 0
             (initial_state ?e ?v carved) of
        Inl err \<Rightarrow> Crashed err
      | Inr s \<Rightarrow>
          Done s (time_end ?e - time_start ?e)
            (if 0 < time_end ?e - time_start ?e
             then of_nat (total_processed_frames s) / (time_end ?e - time_start ?e) else 0,
             if 0 < total_processed_frames s
             then (time_end ?e - time_start ?e) / of_nat (total_processed_frames s) else 0))"
    by (rule process_video_stream [OF _ _ _ pr]) simp_all
  then show ?thesis
    using lp by simp
qed

subsection \<open>C4: the target dimensions\<close>

text \<open>
  C4, as stated (dimensions rounded to the nearest integer), fails: for a width of 7 and
  a horizontal factor of 0.25 the product of the doubles is 1.75 exactly; the code
  computes the target width 1, the rounded product is 2.
\<close>

theorem target_not_rounded:
  "new_width \<lparr>height = 1, width = 7, pixels = []\<rparr> (Finite (1 / 4)) = Inr 1
   \<and> float_mul (Finite 7) (Finite (1 / 4)) = Finite (7 / 4)
   \<and> py_round (7 / 4) = 2"
proof -
  have a: "float_of_int (int (width \<lparr>height = 1, width = 7, pixels = []\<rparr>)) = Inr (Finite 7)"
    using float_of_int_small [of 7] by simp
  have "(7::rat) / 4 \<le> largest_double" "\<not> (7::rat) / 4 < - largest_double"
    by (simp_all add: largest_double_def)
  then have b: "float_mul (Finite 7) (Finite (1 / 4)) = Finite (7 / 4)"
    by (simp add: float_result_def round_double_7_4 not_less)
  have c: "truncate_rat (7 / 4) = 1"
    unfolding truncate_rat_def by (simp, rule floor_unique) simp_all
  have d: "py_round (7 / 4) = 2"
    unfolding py_round_def by (rule round_half_even_near) simp_all
  have "new_width \<lparr>height = 1, width = 7, pixels = []\<rparr> (Finite (1 / 4))
      = py_int (float_mul (Finite 7) (Finite (1 / 4)))"
    unfolding new_width_def a by simp
  then have "new_width \<lparr>height = 1, width = 7, pixels = []\<rparr> (Finite (1 / 4)) = Inr 1"
    unfolding b by (simp add: py_int_def c)
  then show ?thesis
    using b d by simp
qed

text \<open>
  C4, amended. The code computes the target width as \<open>int(w * scale_x)\<close> and the target
  height as \<open>int(h * scale_y)\<close>: whenever the product of the doubles is finite, the
  target is that product truncated towards zero (it has the sign of the product, and
  its magnitude is the integer part of the product's magnitude), not the product
  rounded to the nearest integer. (When the product is an infinity or not a number,
  \<open>int\<close> raises, see \<open>new_width_raises\<close>. The statement is about the two targets that
  lines 13 and 14 compute; line 17 hands them to the library as the pair
  \<open>(new_height, new_width)\<close>, and which of them becomes the width of the returned
  frame is the library's reading of that pair, see \<open>seam_carve_size\<close>.)
\<close>

theorem target_truncated:
  assumes "float_of_int (int (width img)) = Inr w" "float_mul w scale_x = Finite pw"
    and "float_of_int (int (height img)) = Inr h" "float_mul h scale_y = Finite ph"
  shows "\<exists>nw nh. new_width img scale_x = Inr nw \<and> new_height img scale_y = Inr nh
           \<and> \<bar>of_int nw\<bar> \<le> \<bar>pw\<bar> \<and> \<bar>pw\<bar> < \<bar>of_int nw\<bar> + 1 \<and> 0 \<le> of_int nw * pw
           \<and> \<bar>of_int nh\<bar> \<le> \<bar>ph\<bar> \<and> \<bar>ph\<bar> < \<bar>of_int nh\<bar> + 1 \<and> 0 \<le> of_int nh * ph"
proof -
  have "new_width img scale_x = Inr (truncate_rat pw)"
    using assms(1,2) by (simp add: new_width_def py_int_def)
  moreover have "new_height img scale_y = Inr (truncate_rat ph)"
    using assms(3,4) by (simp add: new_height_def py_int_def)
  ultimately show ?thesis
    using truncate_rat_abs_le [of pw] truncate_rat_abs_gt [of pw] truncate_rat_sign [of pw]
      truncate_rat_abs_le [of ph] truncate_rat_abs_gt [of ph] truncate_rat_sign [of ph]
    by blast
qed

theorem target_truncated_witness:
  "round_double (29 / 100) = 5224175567749775 / 2 ^ 54
   \<and> float_of_int (int (width \<lparr>height = 480, width = 100, pixels = []\<rparr>)) = Inr (Finite 100)
   \<and> float_mul (Finite 100) (Finite (5224175567749775 / 2 ^ 54))
        = Finite (8162774324609023 / 2 ^ 48)
   \<and> float_of_int (int (height \<lparr>height = 480, width = 100, pixels = []\<rparr>)) = Inr (Finite 480)
   \<and> float_mul (Finite 480) (Finite 1) = Finite 480
   \<and> new_width \<lparr>height = 480, width = 100, pixels = []\<rparr> (Finite (5224175567749775 / 2 ^ 54))
        = Inr 28
   \<and> new_height \<lparr>height = 480, width = 100, pixels = []\<rparr> (Finite 1) = Inr 480"
proof -
  let ?img = "\<lparr>height = 480, width = 100, pixels = []\<rparr>"
  let ?sx = "Finite (5224175567749775 / 2 ^ 54)"
  have a: "float_of_int (int (width ?img)) = Inr (Finite 100)"
    using float_of_int_small [of 100] by simp
  have "(8162774324609023::rat) / 2 ^ 48 \<le> largest_double"
    "\<not> (8162774324609023::rat) / 2 ^ 48 < - largest_double"
    by (simp_all add: largest_double_def)
  then have "float_result (100 * (5224175567749775 / 2 ^ 54))
      = Finite (8162774324609023 / 2 ^ 48)"
    unfolding float_result_def double_100_029 Let_def by (simp add: not_less)
  then have b: "float_mul (Finite 100) ?sx = Finite (8162774324609023 / 2 ^ 48)"
    by (simp only: float_mul.simps)
  have c: "float_of_int (int (height ?img)) = Inr (Finite 480)"
    using float_of_int_small [of 480] by simp
  have d: "float_mul (Finite 480) (Finite 1) = Finite 480"
    using float_result_small [of 480] by simp
  from target_truncated [OF a b c d] obtain nw nh where
    n: "new_width ?img ?sx = Inr nw" "new_height ?img (Finite 1) = Inr nh"
    and w: "\<bar>rat_of_int nw\<bar> \<le> \<bar>8162774324609023 / 2 ^ 48\<bar>"
      "\<bar>8162774324609023 / 2 ^ 48\<bar> < \<bar>rat_of_int nw\<bar> + 1"
      "0 \<le> rat_of_int nw * (8162774324609023 / 2 ^ 48)"
    and h: "\<bar>rat_of_int nh\<bar> \<le> \<bar>480\<bar>" "\<bar>480\<bar> < \<bar>rat_of_int nh\<bar> + 1"
      "0 \<le> rat_of_int nh * 480"
    by blast
  have "0 \<le> rat_of_int nw"
    using w(3) by (simp add: zero_le_mult_iff)
  then have "rat_of_int nw \<le> 8162774324609023 / 2 ^ 48"
    "8162774324609023 / 2 ^ 48 < rat_of_int nw + 1"
    using w(1,2) by simp_all
  then have "\<lfloor>(8162774324609023::rat) / 2 ^ 48\<rfloor> = nw"
    by (intro floor_unique)
  moreover have "\<lfloor>(8162774324609023::rat) / 2 ^ 48\<rfloor> = 28"
    by (rule floor_unique) simp_all
  ultimately have nw: "nw = 28"
    by simp
  have "0 \<le> rat_of_int nh"
    using h(3) by (simp add: zero_le_mult_iff)
  then have "rat_of_int nh \<le> 480" "480 < rat_of_int nh + 1"
    using h(1,2) by simp_all
  then have "nh \<le> 480" "479 < nh"
    by linarith+
  then have nh: "nh = 480"
    by simp
  show ?thesis
    using double_029 a b c d n nw nh by simp
qed

subsection \<open>C2: the content of the progress file\<close>

text \<open>
  C2, as stated (after every report the file holds exactly one line, earlier reports
  being overwritten), fails: the file is opened once, before the loop, and every report
  is written behind the previous one. After a run over two frames the file holds two
  lines.
\<close>

theorem progress_file_keeps_history:
  "map_option progress_file
     (final_state (process_video (toy_env []) (toy_video 2 [toy_frame 1, toy_frame 2]) (Finite 1) (Finite 1)))
   = Some (''50.00'' @ [CHR 0x0A] @ ''100.00'' @ [CHR 0x0A])"
proof -
  from toy_run [of 2 "[1, 2]" "[]"] obtain s tt st carved where
    d: "process_video (toy_env []) (toy_video 2 (map toy_frame [1, 2])) (Finite 1) (Finite 1) = Done s tt st"
    and lp: "loop_post (toy_env []) (toy_video 2 (map toy_frame [1, 2])) (Finite 1) (Finite 1) 2 0
               (initial_state (toy_env []) (toy_video 2 (map toy_frame [1, 2])) carved) s"
    by auto
  have "length (frames (toy_video 2 (map toy_frame [1, 2]))) = 2"
    by simp
  from percentages_two [OF this, of 2]
  have "percentages 2 0 (length (frames (toy_video 2 (map toy_frame [1, 2])))) = [50, 100]"
    by (simp only: percent_values)
  then have "progress_file s = progress_line 50 @ progress_line 100"
    using loop_post_initial(6,7) [OF lp] by simp
  then show ?thesis
    using d by (simp add: final_state_def progress_line_def format_2f_50 format_2f_100)
qed

text \<open>
  C2, amended. When a run reaches its normal end, the progress file holds the whole
  history: one line per report, in order, line \<open>k\<close> being the percentage after \<open>k\<close>
  frames (the double that the code computes) formatted with two decimals and followed
  by a newline. (A run reaches its
  normal end when the file exists and opens, the announced frame count is not zero, no
  \<open>process_frame\<close> call raises and the first frame is carved.)
\<close>

theorem progress_file_is_appended:
  assumes "path_exists v" "can_open v" "frames v \<noteq> []" "prop_frame_count v \<noteq> 0"
    and "list_all (\<lambda>f. \<not> isl (process_frame e f scale_x scale_y)) (frames v)"
    and "process_frame e (hd (frames v)) scale_x scale_y \<noteq> Inr None"
  shows "\<exists>s tt st. process_video e v scale_x scale_y = Done s tt st
           \<and> progress_file s =
               concat (map (\<lambda>k. progress_line (percent (Suc k) (prop_frame_count v)))
                         [0..<length (frames v)])"
proof -
  from run_completes [OF assms] obtain s tt st carved where
    d: "process_video e v scale_x scale_y = Done s tt st"
    and lp: "loop_post e v scale_x scale_y (prop_frame_count v) 0 (initial_state e v carved) s"
    by blast
  have "progress_file s =
      concat (map progress_line (percentages (prop_frame_count v) 0 (length (frames v))))"
    using loop_post_initial(6,7) [OF lp] by simp
  then have "progress_file s =
      concat (map (\<lambda>k. progress_line (percent (Suc k) (prop_frame_count v)))
                [0..<length (frames v)])"
    by (simp add: percentages_nth o_def)
  with d show ?thesis by blast
qed

theorem progress_file_is_appended_witness:
  "path_exists (toy_video 2 [toy_frame 1, toy_frame 2])
   \<and> can_open (toy_video 2 [toy_frame 1, toy_frame 2])
   \<and> frames (toy_video 2 [toy_frame 1, toy_frame 2]) \<noteq> []
   \<and> prop_frame_count (toy_video 2 [toy_frame 1, toy_frame 2]) \<noteq> 0
   \<and> list_all (\<lambda>f. \<not> isl (process_frame (toy_env []) f (Finite 1) (Finite 1)))
        (frames (toy_video 2 [toy_frame 1, toy_frame 2]))
   \<and> process_frame (toy_env []) (hd (frames (toy_video 2 [toy_frame 1, toy_frame 2]))) (Finite 1) (Finite 1)
        \<noteq> Inr None
   \<and> (\<exists>s tt st.
         process_video (toy_env []) (toy_video 2 [toy_frame 1, toy_frame 2]) (Finite 1) (Finite 1) = Done s tt st
         \<and> progress_file s = progress_line 50 @ progress_line 100)"
proof -
  let ?v = "toy_video 2 [toy_frame 1, toy_frame 2]"
  have pre: "path_exists ?v" "can_open ?v" "frames ?v \<noteq> []" "prop_frame_count ?v \<noteq> 0"
    "list_all (\<lambda>f. \<not> isl (process_frame (toy_env []) f (Finite 1) (Finite 1))) (frames ?v)"
    "process_frame (toy_env []) (hd (frames ?v)) (Finite 1) (Finite 1) \<noteq> Inr None"
    by (simp_all add: toy_process_frame)
  from progress_file_is_appended [OF pre] obtain s tt st where
    d: "process_video (toy_env []) ?v (Finite 1) (Finite 1) = Done s tt st"
    and p: "progress_file s =
       concat (map (\<lambda>k. progress_line (percent (Suc k) (prop_frame_count ?v)))
                 [0..<length (frames ?v)])"
    by blast
  have "length (frames ?v) = 2" "prop_frame_count ?v = 2"
    by simp_all
  from percentages_two [OF this(1), of 2] this(2)
  have "percentages (prop_frame_count ?v) 0 (length (frames ?v)) = [50, 100]"
    by (simp only: percent_values)
  then have "map (\<lambda>k. percent (Suc k) (prop_frame_count ?v)) [0..<length (frames ?v)]
      = [50, 100]"
    by (simp only: percentages_nth)
  then have "map progress_line
       (map (\<lambda>k. percent (Suc k) (prop_frame_count ?v)) [0..<length (frames ?v)])
      = [progress_line 50, progress_line 100]"
    by (simp only: list.map)
  then have "concat (map (\<lambda>k. progress_line (percent (Suc k) (prop_frame_count ?v)))
                 [0..<length (frames ?v)]) = progress_line 50 @ progress_line 100"
    by (simp only: map_map o_def concat.simps append_Nil2)
  with d p have "\<exists>s tt st. process_video (toy_env []) ?v (Finite 1) (Finite 1) = Done s tt st
         \<and> progress_file s = progress_line 50 @ progress_line 100"
    by auto
  with pre show ?thesis
    by blast
qed

subsection \<open>C5: how often progress is reported\<close>

text \<open>
  C5, as stated (one report per batch boundary, never one per frame), fails: a run over
  three frames makes three reports and processes one batch.
\<close>

theorem reports_are_per_frame:
  "map_option (\<lambda>s. length (reported s))
     (final_state (process_video (toy_env [])
        (toy_video 3 [toy_frame 1, toy_frame 2, toy_frame 3]) (Finite 1) (Finite 1))) = Some 3
   \<and> map_option (\<lambda>s. length (batches s))
     (final_state (process_video (toy_env [])
        (toy_video 3 [toy_frame 1, toy_frame 2, toy_frame 3]) (Finite 1) (Finite 1))) = Some 1"
proof -
  from toy_run [of 3 "[1, 2, 3]" "[]"] obtain s tt st carved where
    d: "process_video (toy_env []) (toy_video 3 (map toy_frame [1, 2, 3])) (Finite 1) (Finite 1) = Done s tt st"
    and lp: "loop_post (toy_env []) (toy_video 3 (map toy_frame [1, 2, 3])) (Finite 1) (Finite 1) 3 0
               (initial_state (toy_env []) (toy_video 3 (map toy_frame [1, 2, 3])) carved) s"
    by auto
  have "length (reported s) = 3"
    using loop_post_initial(6) [OF lp] by (simp add: percentages_def)
  moreover have "length (batches s) = 1"
    using loop_post_initial(5) [OF lp] by (simp add: chunks_short batch_size_def)
  ultimately show ?thesis
    using d by (simp add: final_state_def)
qed

text \<open>
  C5, amended. A run that reaches its normal end has made exactly one report per frame
  read in the loop, the \<open>k\<close>-th after the \<open>k\<close>-th frame, whether or not that frame
  filled a batch: none after the first-frame probe and none after the final partial
  batch. The number of batches is the number of frames divided by 32, rounded up.
\<close>

theorem one_report_per_frame:
  assumes "path_exists v" "can_open v" "frames v \<noteq> []" "prop_frame_count v \<noteq> 0"
    and "list_all (\<lambda>f. \<not> isl (process_frame e f scale_x scale_y)) (frames v)"
    and "process_frame e (hd (frames v)) scale_x scale_y \<noteq> Inr None"
  shows "\<exists>s tt st. process_video e v scale_x scale_y = Done s tt st
           \<and> length (reported s) = length (frames v)
           \<and> reported s = map (\<lambda>k. percent (Suc k) (prop_frame_count v))
                             [0..<length (frames v)]
           \<and> length (batches s) =
               length (frames v) div 32 + (if length (frames v) mod 32 = 0 then 0 else 1)"
proof -
  from run_completes [OF assms] obtain s tt st carved where
    d: "process_video e v scale_x scale_y = Done s tt st"
    and lp: "loop_post e v scale_x scale_y (prop_frame_count v) 0 (initial_state e v carved) s"
    by blast
  have r: "reported s = map (\<lambda>k. percent (Suc k) (prop_frame_count v))
                          [0..<length (frames v)]"
    using loop_post_initial(6) [OF lp] by (simp add: percentages_nth)
  then have "length (reported s) = length (frames v)"
    by simp
  moreover have "length (batches s) =
      length (frames v) div 32 + (if length (frames v) mod 32 = 0 then 0 else 1)"
    using loop_post_initial(5) [OF lp] length_chunks_count [of batch_size "frames v"]
    by (simp add: batch_size_def)
  ultimately show ?thesis
    using d r by blast
qed

theorem one_report_per_frame_witness:
  "path_exists (toy_video 4 [toy_frame 1, toy_frame 2, toy_frame 3, toy_frame 4])
   \<and> can_open (toy_video 4 [toy_frame 1, toy_frame 2, toy_frame 3, toy_frame 4])
   \<and> frames (toy_video 4 [toy_frame 1, toy_frame 2, toy_frame 3, toy_frame 4]) \<noteq> []
   \<and> prop_frame_count (toy_video 4 [toy_frame 1, toy_frame 2, toy_frame 3, toy_frame 4]) \<noteq> 0
   \<and> list_all (\<lambda>f. \<not> isl (process_frame (toy_env []) f (Finite 1) (Finite 1)))
        (frames (toy_video 4 [toy_frame 1, toy_frame 2, toy_frame 3, toy_frame 4]))
   \<and> process_frame (toy_env [])
        (hd (frames (toy_video 4 [toy_frame 1, toy_frame 2, toy_frame 3, toy_frame 4]))) (Finite 1) (Finite 1) \<noteq> Inr None
   \<and> (\<exists>s tt st.
         process_video (toy_env []) (toy_video 4 [toy_frame 1, toy_frame 2, toy_frame 3, toy_frame 4]) (Finite 1) (Finite 1)
           = Done s tt st
         \<and> reported s = [25, 50, 75, 100] \<and> length (batches s) = 1)"
proof -
  let ?v = "toy_video 4 [toy_frame 1, toy_frame 2, toy_frame 3, toy_frame 4]"
  have pre: "path_exists ?v" "can_open ?v" "frames ?v \<noteq> []" "prop_frame_count ?v \<noteq> 0"
    "list_all (\<lambda>f. \<not> isl (process_frame (toy_env []) f (Finite 1) (Finite 1))) (frames ?v)"
    "process_frame (toy_env []) (hd (frames ?v)) (Finite 1) (Finite 1) \<noteq> Inr None"
    by (simp_all add: toy_process_frame)
  from one_report_per_frame [OF pre] obtain s tt st where
    d: "process_video (toy_env []) ?v (Finite 1) (Finite 1) = Done s tt st"
    and r: "reported s = map (\<lambda>k. percent (Suc k) (prop_frame_count ?v))
                           [0..<length (frames ?v)]"
    and b: "length (batches s) =
              length (frames ?v) div 32 + (if length (frames ?v) mod 32 = 0 then 0 else 1)"
    by blast
  have "length (frames ?v) = 4" "prop_frame_count ?v = 4"
    by simp_all
  from percentages_four [OF this(1), of 4] this(2)
  have "percentages (prop_frame_count ?v) 0 (length (frames ?v)) = [25, 50, 75, 100]"
    by (simp only: percent_values)
  then have "map (\<lambda>k. percent (Suc k) (prop_frame_count ?v))
          [0..<length (frames ?v)] = [25, 50, 75, 100]"
    by (simp only: percentages_nth)
  moreover have "length (frames ?v) div 32 + (if length (frames ?v) mod 32 = 0 then 0 else 1)
      = (1 :: nat)"
    by simp
  ultimately have "\<exists>s tt st. process_video (toy_env []) ?v (Finite 1) (Finite 1) = Done s tt st
         \<and> reported s = [25, 50, 75, 100] \<and> length (batches s) = 1"
    using d r b by auto
  with pre show ?thesis
    by blast
qed


subsection \<open>C7: the partition into batches\<close>

text \<open>
  C7. In a run that reaches its normal end, the batches handed to the pool are the
  consecutive pieces of 32 frames of the stream, followed by one final piece of
  \<open>T mod 32\<close> frames when that is not zero (for 100 frames: 32, 32, 32, 4), and every
  batch, the final short one included, contributes to the output in the same way: its
  frames whose transformation succeeded, in order.
\<close>

theorem batches_are_chunks:
  assumes "path_exists v" "can_open v" "frames v \<noteq> []" "prop_frame_count v \<noteq> 0"
    and "list_all (\<lambda>f. \<not> isl (process_frame e f scale_x scale_y)) (frames v)"
    and "process_frame e (hd (frames v)) scale_x scale_y \<noteq> Inr None"
  shows "\<exists>s tt st. process_video e v scale_x scale_y = Done s tt st
           \<and> batches s = chunks 32 (frames v)
           \<and> concat (batches s) = frames v
           \<and> map length (batches s) =
               replicate (length (frames v) div 32) 32
               @ (if length (frames v) mod 32 = 0 then [] else [length (frames v) mod 32])
           \<and> out s = concat (map (successes e scale_x scale_y) (batches s))"
proof -
  from run_completes [OF assms] obtain s tt st carved where
    d: "process_video e v scale_x scale_y = Done s tt st"
    and lp: "loop_post e v scale_x scale_y (prop_frame_count v) 0 (initial_state e v carved) s"
    by blast
  have b: "batches s = chunks 32 (frames v)"
    using loop_post_initial(5) [OF lp] by (simp add: batch_size_def)
  have c: "concat (batches s) = frames v"
    unfolding b by (rule concat_chunks) simp
  have l: "map length (batches s) =
      replicate (length (frames v) div 32) 32
      @ (if length (frames v) mod 32 = 0 then [] else [length (frames v) mod 32])"
    unfolding b by (rule length_chunks) simp
  have "out s = concat (map (successes e scale_x scale_y) (batches s))"
    using loop_post_initial(3) [OF lp] by (simp add: successes_concat c)
  with d b c l show ?thesis
    by blast
qed

theorem batches_are_chunks_witness:
  "path_exists (toy_video 100 (map toy_frame [0..<100]))
   \<and> can_open (toy_video 100 (map toy_frame [0..<100]))
   \<and> frames (toy_video 100 (map toy_frame [0..<100])) \<noteq> []
   \<and> prop_frame_count (toy_video 100 (map toy_frame [0..<100])) \<noteq> 0
   \<and> list_all (\<lambda>f. \<not> isl (process_frame (toy_env []) f (Finite 1) (Finite 1)))
        (frames (toy_video 100 (map toy_frame [0..<100])))
   \<and> process_frame (toy_env []) (hd (frames (toy_video 100 (map toy_frame [0..<100])))) (Finite 1) (Finite 1)
        \<noteq> Inr None
   \<and> (\<exists>s tt st.
         process_video (toy_env []) (toy_video 100 (map toy_frame [0..<100])) (Finite 1) (Finite 1) = Done s tt st
         \<and> map length (batches s) = [32, 32, 32, 4]
         \<and> out s = concat (map (successes (toy_env []) (Finite 1) (Finite 1)) (batches s)))"
proof -
  let ?v = "toy_video 100 (map toy_frame [0..<100])"
  have ne: "[0..<100::nat] \<noteq> []"
    by simp
  have pre: "path_exists ?v" "can_open ?v" "frames ?v \<noteq> []" "prop_frame_count ?v \<noteq> 0"
    "list_all (\<lambda>f. \<not> isl (process_frame (toy_env []) f (Finite 1) (Finite 1))) (frames ?v)"
    "process_frame (toy_env []) (hd (frames ?v)) (Finite 1) (Finite 1) \<noteq> Inr None"
    using ne by (simp_all add: toy_all_return hd_map toy_process_frame del: upt.simps)
  from batches_are_chunks [OF pre] obtain s tt st where
    d: "process_video (toy_env []) ?v (Finite 1) (Finite 1) = Done s tt st"
    and l: "map length (batches s) =
      replicate (length (frames ?v) div 32) 32
      @ (if length (frames ?v) mod 32 = 0 then [] else [length (frames ?v) mod 32])"
    and o: "out s = concat (map (successes (toy_env []) (Finite 1) (Finite 1)) (batches s))"
    by blast
  have "replicate (length (frames ?v) div 32) 32
      @ (if length (frames ?v) mod 32 = 0 then [] else [length (frames ?v) mod 32])
      = [32, 32, 32, 4 :: nat]"
    by (simp add: numeral_3_eq_3)
  with d l o have "\<exists>s tt st. process_video (toy_env []) ?v (Finite 1) (Finite 1) = Done s tt st
         \<and> map length (batches s) = [32, 32, 32, 4]
         \<and> out s = concat (map (successes (toy_env []) (Finite 1) (Finite 1)) (batches s))"
    by auto
  with pre show ?thesis
    by blast
qed

subsection \<open>C8: the reported percentages and the announced frame count\<close>

text \<open>
  C8, as stated (for every stream of \<open>T > 0\<close> frames the written percentages never
  decrease and the last one is 100.00 once all frames are consumed), fails: the divisor
  of line 110 is the frame count that the source announces, which the code never
  compares with the number of frames it reads. A source of two frames that announces
  four ends normally, both frames written, with the reports 25.00 and 50.00; a source of
  two frames that announces \<open>-1\<close> ends normally with the reports \<open>-100.00\<close> and
  \<open>-200.00\<close>, a decreasing sequence.
\<close>

theorem progress_follows_announced_count:
  "map_option out
     (final_state (process_video (toy_env []) (toy_video 4 [toy_frame 1, toy_frame 2])
        (Finite 1) (Finite 1)))
   = Some [toy_frame 1, toy_frame 2]
   \<and> map_option reported
     (final_state (process_video (toy_env []) (toy_video 4 [toy_frame 1, toy_frame 2])
        (Finite 1) (Finite 1)))
   = Some [25, 50]
   \<and> map_option progress_file
     (final_state (process_video (toy_env []) (toy_video 4 [toy_frame 1, toy_frame 2])
        (Finite 1) (Finite 1)))
   = Some (''25.00'' @ [CHR 0x0A] @ ''50.00'' @ [CHR 0x0A])
   \<and> map_option reported
     (final_state (process_video (toy_env []) (toy_video (- 1) [toy_frame 1, toy_frame 2])
        (Finite 1) (Finite 1)))
   = Some [- 100, - 200]"
proof -
  let ?fs = "map toy_frame [1, 2]"
  have n: "length (frames (toy_video 4 ?fs)) = 2" "length (frames (toy_video (- 1) ?fs)) = 2"
    by simp_all
  from toy_run [of 4 "[1, 2]" "[]"] obtain s tt st carved where
    d: "process_video (toy_env []) (toy_video 4 ?fs) (Finite 1) (Finite 1) = Done s tt st"
    and lp: "loop_post (toy_env []) (toy_video 4 ?fs) (Finite 1) (Finite 1) 4 0
               (initial_state (toy_env []) (toy_video 4 ?fs) carved) s"
    by auto
  from percentages_two [OF n(1), of 4]
  have "percentages 4 0 (length (frames (toy_video 4 ?fs))) = [25, 50]"
    by (simp only: percent_values)
  then have r: "reported s = [25, 50]"
    using loop_post_initial(6) [OF lp] by simp
  then have f: "progress_file s = progress_line 25 @ progress_line 50"
    using loop_post_initial(7) [OF lp] by simp
  have o: "out s = [toy_frame 1, toy_frame 2]"
    using loop_post_initial(3) [OF lp] by (simp add: successes_Cons toy_process_frame)
  from toy_run [of "- 1" "[1, 2]" "[]"] obtain s' tt' st' carved' where
    d': "process_video (toy_env []) (toy_video (- 1) ?fs) (Finite 1) (Finite 1)
           = Done s' tt' st'"
    and lp': "loop_post (toy_env []) (toy_video (- 1) ?fs) (Finite 1) (Finite 1) (- 1) 0
               (initial_state (toy_env []) (toy_video (- 1) ?fs) carved') s'"
    by auto
  from percentages_two [OF n(2), of "- 1"]
  have "percentages (- 1) 0 (length (frames (toy_video (- 1) ?fs))) = [- 100, - 200]"
    by (simp only: percent_values)
  then have r': "reported s' = [- 100, - 200]"
    using loop_post_initial(6) [OF lp'] by simp
  show ?thesis
    using d d' r r' o f
    by (simp add: final_state_def progress_line_def format_2f_25 format_2f_50)
qed

text \<open>
  C8, amended. For a source whose announced frame count \<open>A\<close> is positive, the run reaches
  its normal end (when the file exists and opens, no \<open>process_frame\<close> call raises and
  the first frame is carved), the progress file holds the lines of the reported
  percentages, the reported percentages (the doubles that line 110 computes) are
  non-decreasing, so are the two-decimal values written for them, and the last report
  is the percentage of the number of frames read against \<open>A\<close>. When \<open>A\<close> is the number of
  frames of the stream, that last report is 100, written as \<open>100.00\<close>.
\<close>

theorem progress_is_monotone:
  assumes "path_exists v" "can_open v" "frames v \<noteq> []"
    and "0 < prop_frame_count v"
    and "list_all (\<lambda>f. \<not> isl (process_frame e f scale_x scale_y)) (frames v)"
    and "process_frame e (hd (frames v)) scale_x scale_y \<noteq> Inr None"
  shows "\<exists>s tt st. process_video e v scale_x scale_y = Done s tt st
           \<and> progress_file s = concat (map progress_line (reported s))
           \<and> sorted (reported s)
           \<and> sorted (map (\<lambda>q. round_half_even (\<bar>q\<bar> * 100)) (reported s))
           \<and> reported s \<noteq> []
           \<and> last (reported s) = percent (length (frames v)) (prop_frame_count v)
           \<and> (prop_frame_count v = int (length (frames v))
                \<longrightarrow> last (reported s) = 100
                    \<and> progress_line (last (reported s)) = ''100.00'' @ [CHR 0x0A])"
proof -
  have n: "0 < length (frames v)"
    using assms(3) by simp
  have t: "prop_frame_count v \<noteq> 0"
    using assms(4) by simp
  from run_completes [OF assms(1-3) t assms(5,6)] obtain s tt st carved where
    d: "process_video e v scale_x scale_y = Done s tt st"
    and lp: "loop_post e v scale_x scale_y (prop_frame_count v) 0 (initial_state e v carved) s"
    by blast
  have r: "reported s = percentages (prop_frame_count v) 0 (length (frames v))"
    using loop_post_initial(6) [OF lp] .
  have f: "progress_file s = concat (map progress_line (reported s))"
    using loop_post_initial(7) [OF lp] .
  have so: "sorted (reported s)"
    unfolding r using assms(4) by (rule sorted_percentages)
  have sw: "sorted (map (\<lambda>q. round_half_even (\<bar>q\<bar> * 100)) (reported s))"
  proof (rule sorted_map_mono [OF so])
    fix x y
    assume "x \<in> set (reported s)" "y \<in> set (reported s)" "x \<le> y"
    then have "0 \<le> x" "0 \<le> y" "x \<le> y"
      using percentages_nonneg [OF assms(4)] r by auto
    then have "\<bar>x\<bar> * 100 \<le> \<bar>y\<bar> * 100"
      by simp
    then show "round_half_even (\<bar>x\<bar> * 100) \<le> round_half_even (\<bar>y\<bar> * 100)"
      by (rule round_half_even_mono)
  qed
  have l: "reported s \<noteq> []"
    "last (reported s) = percent (length (frames v)) (prop_frame_count v)"
    unfolding r using last_percentages [OF n] by simp_all
  have "last (reported s) = 100
      \<and> progress_line (last (reported s)) = ''100.00'' @ [CHR 0x0A]"
    if "prop_frame_count v = int (length (frames v))"
    using l(2) that percent_all [OF n] by (simp add: progress_line_def format_2f_100)
  then show ?thesis
    using d f so sw l by blast
qed

theorem progress_is_monotone_witness:
  "path_exists (toy_video 3 [toy_frame 1, toy_frame 2, toy_frame 3])
   \<and> can_open (toy_video 3 [toy_frame 1, toy_frame 2, toy_frame 3])
   \<and> frames (toy_video 3 [toy_frame 1, toy_frame 2, toy_frame 3]) \<noteq> []
   \<and> 0 < prop_frame_count (toy_video 3 [toy_frame 1, toy_frame 2, toy_frame 3])
   \<and> list_all (\<lambda>f. \<not> isl (process_frame (toy_env []) f (Finite 1) (Finite 1)))
        (frames (toy_video 3 [toy_frame 1, toy_frame 2, toy_frame 3]))
   \<and> process_frame (toy_env [])
        (hd (frames (toy_video 3 [toy_frame 1, toy_frame 2, toy_frame 3]))) (Finite 1) (Finite 1)
        \<noteq> Inr None
   \<and> prop_frame_count (toy_video 3 [toy_frame 1, toy_frame 2, toy_frame 3])
        = int (length (frames (toy_video 3 [toy_frame 1, toy_frame 2, toy_frame 3])))
   \<and> (\<exists>s tt st.
         process_video (toy_env []) (toy_video 3 [toy_frame 1, toy_frame 2, toy_frame 3])
           (Finite 1) (Finite 1) = Done s tt st
         \<and> progress_file s = concat (map progress_line (reported s))
         \<and> sorted (reported s) \<and> last (reported s) = 100
         \<and> progress_line (last (reported s)) = ''100.00'' @ [CHR 0x0A])"
proof -
  let ?v = "toy_video 3 [toy_frame 1, toy_frame 2, toy_frame 3]"
  have pre: "path_exists ?v" "can_open ?v" "frames ?v \<noteq> []"
    "0 < prop_frame_count ?v"
    "list_all (\<lambda>f. \<not> isl (process_frame (toy_env []) f (Finite 1) (Finite 1))) (frames ?v)"
    "process_frame (toy_env []) (hd (frames ?v)) (Finite 1) (Finite 1) \<noteq> Inr None"
    by (simp_all add: toy_process_frame)
  have eq: "prop_frame_count ?v = int (length (frames ?v))"
    by simp
  from progress_is_monotone [OF pre] eq have "\<exists>s tt st.
         process_video (toy_env []) ?v (Finite 1) (Finite 1) = Done s tt st
         \<and> progress_file s = concat (map progress_line (reported s))
         \<and> sorted (reported s) \<and> last (reported s) = 100
         \<and> progress_line (last (reported s)) = ''100.00'' @ [CHR 0x0A]"
    by blast
  with pre eq show ?thesis
    by blast
qed

subsection \<open>C9: the probed frame is processed again\<close>

text \<open>
  C9. After the first-frame probe the loop starts at cursor position zero: in a run that
  reaches its normal end, the first frame handed to the pool is the probed frame, the
  batches together are all the frames of the stream, and the first frame written is the
  result that \<open>process_frame\<close> computes for the probed frame in its batch (the
  probe's own carved frame is used for the shape of the writer only).
\<close>

theorem probe_frame_is_reprocessed:
  assumes "path_exists v" "can_open v" "frames v \<noteq> []" "prop_frame_count v \<noteq> 0"
    and "list_all (\<lambda>f. \<not> isl (process_frame e f scale_x scale_y)) (frames v)"
    and "process_frame e (hd (frames v)) scale_x scale_y \<noteq> Inr None"
  shows "\<exists>s tt st y. process_video e v scale_x scale_y = Done s tt st
           \<and> batches s \<noteq> [] \<and> hd (batches s) \<noteq> []
           \<and> hd (hd (batches s)) = hd (frames v)
           \<and> concat (batches s) = frames v
           \<and> process_frame e (hd (frames v)) scale_x scale_y = Inr (Some y)
           \<and> out s \<noteq> [] \<and> hd (out s) = y"
proof -
  from run_completes [OF assms] obtain s tt st carved where
    d: "process_video e v scale_x scale_y = Done s tt st"
    and lp: "loop_post e v scale_x scale_y (prop_frame_count v) 0 (initial_state e v carved) s"
    by blast
  obtain f fs where fr: "frames v = f # fs"
    using assms(3) by (cases "frames v") auto
  have "\<not> isl (process_frame e f scale_x scale_y)"
    using assms(5) fr by simp
  then obtain y where y: "process_frame e f scale_x scale_y = Inr (Some y)"
    using assms(6) fr by (cases "process_frame e f scale_x scale_y") auto
  have b: "batches s = chunks batch_size (frames v)"
    using loop_post_initial(5) [OF lp] .
  have c: "chunks batch_size (frames v)
      = take batch_size (frames v) # chunks batch_size (drop batch_size (frames v))"
    using assms(3) by (subst chunks.simps) (simp add: batch_size_def)
  have "hd (batches s) = take batch_size (frames v)" "batches s \<noteq> []"
    unfolding b c by simp_all
  then have h: "batches s \<noteq> []" "hd (batches s) \<noteq> []" "hd (hd (batches s)) = hd (frames v)"
    using fr by (simp_all add: batch_size_def)
  have cc: "concat (batches s) = frames v"
    unfolding b by (rule concat_chunks) (simp add: batch_size_def)
  have "out s = y # successes e scale_x scale_y fs"
    using loop_post_initial(3) [OF lp] fr y by (simp add: successes_Cons)
  then have "out s \<noteq> []" "hd (out s) = y"
    by simp_all
  then show ?thesis
    using d h cc y fr by auto
qed

theorem probe_frame_is_reprocessed_witness:
  "path_exists (toy_video 2 [toy_frame 7, toy_frame 8])
   \<and> can_open (toy_video 2 [toy_frame 7, toy_frame 8])
   \<and> frames (toy_video 2 [toy_frame 7, toy_frame 8]) \<noteq> []
   \<and> prop_frame_count (toy_video 2 [toy_frame 7, toy_frame 8]) \<noteq> 0
   \<and> list_all (\<lambda>f. \<not> isl (process_frame (toy_env []) f (Finite 1) (Finite 1)))
        (frames (toy_video 2 [toy_frame 7, toy_frame 8]))
   \<and> process_frame (toy_env []) (hd (frames (toy_video 2 [toy_frame 7, toy_frame 8]))) (Finite 1) (Finite 1)
        \<noteq> Inr None
   \<and> (\<exists>s tt st.
         process_video (toy_env []) (toy_video 2 [toy_frame 7, toy_frame 8]) (Finite 1) (Finite 1) = Done s tt st
         \<and> hd (hd (batches s)) = toy_frame 7
         \<and> concat (batches s) = [toy_frame 7, toy_frame 8]
         \<and> hd (out s) = toy_frame 7)"
proof -
  let ?v = "toy_video 2 [toy_frame 7, toy_frame 8]"
  have pre: "path_exists ?v" "can_open ?v" "frames ?v \<noteq> []" "prop_frame_count ?v \<noteq> 0"
    "list_all (\<lambda>f. \<not> isl (process_frame (toy_env []) f (Finite 1) (Finite 1))) (frames ?v)"
    "process_frame (toy_env []) (hd (frames ?v)) (Finite 1) (Finite 1) \<noteq> Inr None"
    by (simp_all add: toy_process_frame)
  from probe_frame_is_reprocessed [OF pre] obtain s tt st y where
    "process_video (toy_env []) ?v (Finite 1) (Finite 1) = Done s tt st"
    "hd (hd (batches s)) = hd (frames ?v)" "concat (batches s) = frames ?v"
    "process_frame (toy_env []) (hd (frames ?v)) (Finite 1) (Finite 1) = Inr (Some y)" "hd (out s) = y"
    by blast
  then have "\<exists>s tt st. process_video (toy_env []) ?v (Finite 1) (Finite 1) = Done s tt st
         \<and> hd (hd (batches s)) = toy_frame 7
         \<and> concat (batches s) = [toy_frame 7, toy_frame 8]
         \<and> hd (out s) = toy_frame 7"
    by (auto simp: toy_process_frame)
  with pre show ?thesis
    by blast
qed


subsection \<open>C10: the closing statistics\<close>

text \<open>
  C10. The statistics never divide by zero: for every count and every elapsed time they
  return, with an average frames-per-second of 0 when the elapsed time is not positive
  and an average seconds-per-frame of 0 when the count is 0. In every run that reaches
  its normal end the count used is the number of frames written to the writer.
\<close>

theorem statistics_are_guarded:
  "statistics n t = Inr (if 0 < t then of_nat n / t else 0, if 0 < n then t / of_nat n else 0)
   \<and> (process_video e v scale_x scale_y = Done s tt st \<longrightarrow>
        total_processed_frames s = length (out s)
        \<and> tt = time_end e - time_start e
        \<and> statistics (total_processed_frames s) tt = Inr st
        \<and> (tt = 0 \<longrightarrow> fst st = 0)
        \<and> (length (out s) = 0 \<longrightarrow> snd st = 0))"
proof -
  have "total_processed_frames s = length (out s)
        \<and> tt = time_end e - time_start e
        \<and> statistics (total_processed_frames s) tt = Inr st
        \<and> (tt = 0 \<longrightarrow> fst st = 0)
        \<and> (length (out s) = 0 \<longrightarrow> snd st = 0)"
    if d: "process_video e v scale_x scale_y = Done s tt st"
  proof -
    from run_facts [OF d] obtain carved where
      lp: "loop_post e v scale_x scale_y (prop_frame_count v) 0 (initial_state e v carved) s"
      by blast
    have c: "total_processed_frames s = length (out s)"
      using loop_post_initial(4) [OF lp] .
    from process_video_Done [OF d] have tt: "tt = time_end e - time_start e"
      and st: "st = (if 0 < tt then of_nat (total_processed_frames s) / tt else 0,
             if 0 < total_processed_frames s then tt / of_nat (total_processed_frames s) else 0)"
      by simp_all
    have s1: "statistics (total_processed_frames s) tt = Inr st"
      unfolding st by (rule statistics_eq)
    have s2: "tt = 0 \<longrightarrow> fst st = 0"
      unfolding st by simp
    have s3: "length (out s) = 0 \<longrightarrow> snd st = 0"
      unfolding st using c by simp
    show ?thesis
      using c tt s1 s2 s3 by blast
  qed
  moreover have "statistics n t
      = Inr (if 0 < t then of_nat n / t else 0, if 0 < n then t / of_nat n else 0)"
    by (rule statistics_eq)
  ultimately show ?thesis
    by blast
qed

theorem statistics_are_guarded_witness:
  "statistics 0 0 = Inr (0, 0)
   \<and> (\<exists>s. process_video (toy_env []) (toy_video 2 [toy_frame 1, toy_blank]) (Finite 1) (Finite 1)
            = Done s 2 (1 / 2, 2)
          \<and> total_processed_frames s = length (out s)
          \<and> out s = [toy_frame 1])"
proof -
  let ?v = "toy_video 2 [toy_frame 1, toy_blank]"
  have pre: "path_exists ?v" "can_open ?v" "frames ?v \<noteq> []" "prop_frame_count ?v \<noteq> 0"
    "list_all (\<lambda>f. \<not> isl (process_frame (toy_env []) f (Finite 1) (Finite 1))) (frames ?v)"
    "process_frame (toy_env []) (hd (frames ?v)) (Finite 1) (Finite 1) \<noteq> Inr None"
    by (simp_all add: toy_process_frame toy_process_blank)
  from run_completes [OF pre] obtain s tt st carved where
    d: "process_video (toy_env []) ?v (Finite 1) (Finite 1) = Done s tt st"
    and lp: "loop_post (toy_env []) ?v (Finite 1) (Finite 1) (prop_frame_count ?v) 0
               (initial_state (toy_env []) ?v carved) s"
    by blast
  have o: "out s = [toy_frame 1]"
    using loop_post_initial(3) [OF lp]
    by (simp add: successes_Cons toy_process_frame toy_process_blank)
  note g = statistics_are_guarded [of 0 0 "toy_env []" ?v "Finite 1" "Finite 1" s tt st]
  from g have z: "statistics 0 0 = Inr (0, 0)"
    by simp
  from g d have c: "total_processed_frames s = length (out s)"
    and tt: "tt = time_end (toy_env []) - time_start (toy_env [])"
    and st: "statistics (total_processed_frames s) tt = Inr st"
    by blast+
  have t2: "tt = 2"
    using tt by (simp add: toy_env_def)
  have "total_processed_frames s = 1"
    using c o by simp
  then have "statistics 1 2 = Inr st"
    using st t2 by simp
  then have "st = (1 / 2, 2)"
    by (simp add: statistics_eq)
  then show ?thesis
    using z d c o t2 by simp
qed

subsection \<open>C6: a frame whose transformation fails\<close>

text \<open>
  C6, as stated (a transformation that returns failure or raises yields a failure marker
  for its position only, and the batch call does not fail), fails for a transformation
  that raises: nothing catches the exception, \<open>starmap\<close> raises it again and the run
  ends with it.
\<close>

theorem raising_frame_fails_batch:
  "starmap [] (\<lambda>(f, x, y). process_frame (toy_env []) f x y)
     (map (\<lambda>f. (f, Finite 1, Finite 1)) [toy_frame 1, toy_broken, toy_frame 3]) = Inl (Raised ''empty source'')
   \<and> process_video (toy_env []) (toy_video 3 [toy_frame 1, toy_broken, toy_frame 3]) (Finite 1) (Finite 1)
       = Crashed (Raised ''empty source'')"
  using toy_broken_batch [of "[]" "[]"] toy_broken_run [of "[]"] by (rule conjI)

text \<open>
  C6, amended. If the transformation of the frame at position \<open>k\<close> of a batch returns
  \<open>None\<close> (and no transformation of the batch raises), the batch call returns, the
  result at position \<open>k\<close> alone is \<open>None\<close>, every other position holds its own
  frame's result, and the driver writes the results before and after position \<open>k\<close>
  that are not \<open>None\<close>, in order; a run in which no transformation raises reaches its
  normal end, having written exactly the results that are not \<open>None\<close>. If a
  transformation raises, the batch call raises and the run does not reach its normal
  end.
\<close>

theorem none_is_skipped:
  "((\<forall>f \<in> set batch. process_frame e f scale_x scale_y = Inr (transform f))
      \<and> k < length batch \<and> transform (batch ! k) = None \<longrightarrow>
      (\<exists>rs. starmap picks (\<lambda>(f, x, y). process_frame e f x y)
               (map (\<lambda>f. (f, scale_x, scale_y)) batch) = Inr rs
         \<and> length rs = length batch \<and> rs ! k = None
         \<and> (\<forall>i < length batch. rs ! i = transform (batch ! i))
         \<and> out (write_frames rs s) = out s @ not_none (take k rs) @ not_none (drop (Suc k) rs)
         \<and> total_processed_frames (write_frames rs s)
             = total_processed_frames s + length (not_none rs)))
   \<and> (path_exists v \<and> can_open v \<and> frames v \<noteq> [] \<and> prop_frame_count v \<noteq> 0
      \<and> list_all (\<lambda>f. process_frame e f scale_x scale_y = Inr (transform f)) (frames v)
      \<and> transform (hd (frames v)) \<noteq> None \<longrightarrow>
      (\<exists>s' tt st. process_video e v scale_x scale_y = Done s' tt st
         \<and> out s' = not_none (map transform (frames v))))
   \<and> ((\<exists>f \<in> set batch. isl (process_frame e f scale_x scale_y)) \<longrightarrow>
        isl (starmap picks (\<lambda>(f, x, y). process_frame e f x y)
               (map (\<lambda>f. (f, scale_x, scale_y)) batch)))
   \<and> ((\<exists>f \<in> set (frames v). isl (process_frame e f scale_x scale_y)) \<longrightarrow>
        final_state (process_video e v scale_x scale_y) = None)"
proof (intro conjI impI)
  assume a: "(\<forall>f \<in> set batch. process_frame e f scale_x scale_y = Inr (transform f))
      \<and> k < length batch \<and> transform (batch ! k) = None"
  let ?rs = "map transform batch"
  have "map (\<lambda>(f, x, y). process_frame e f x y) (map (\<lambda>f. (f, scale_x, scale_y)) batch)
      = map Inr ?rs"
    using a by (simp add: o_def)
  then have r: "starmap picks (\<lambda>(f, x, y). process_frame e f x y)
      (map (\<lambda>f. (f, scale_x, scale_y)) batch) = Inr ?rs"
    by (rule starmap_returns)
  have k: "k < length ?rs" "?rs ! k = None"
    using a by simp_all
  have o: "out (write_frames ?rs s) = out s @ not_none (take k ?rs) @ not_none (drop (Suc k) ?rs)"
    using not_none_skip [OF k] by (simp add: write_frames_eq)
  have c: "total_processed_frames (write_frames ?rs s)
             = total_processed_frames s + length (not_none ?rs)"
    by (simp add: write_frames_eq)
  have "length ?rs = length batch \<and> ?rs ! k = None
         \<and> (\<forall>i < length batch. ?rs ! i = transform (batch ! i))"
    using k by simp
  with r o c show "\<exists>rs. starmap picks (\<lambda>(f, x, y). process_frame e f x y)
               (map (\<lambda>f. (f, scale_x, scale_y)) batch) = Inr rs
         \<and> length rs = length batch \<and> rs ! k = None
         \<and> (\<forall>i < length batch. rs ! i = transform (batch ! i))
         \<and> out (write_frames rs s) = out s @ not_none (take k rs) @ not_none (drop (Suc k) rs)
         \<and> total_processed_frames (write_frames rs s)
             = total_processed_frames s + length (not_none rs)"
    by blast
next
  assume a: "path_exists v \<and> can_open v \<and> frames v \<noteq> [] \<and> prop_frame_count v \<noteq> 0
      \<and> list_all (\<lambda>f. process_frame e f scale_x scale_y = Inr (transform f)) (frames v)
      \<and> transform (hd (frames v)) \<noteq> None"
  then have t: "list_all (\<lambda>f. process_frame e f scale_x scale_y = Inr (transform f)) (frames v)"
    by simp
  then have all: "list_all (\<lambda>f. \<not> isl (process_frame e f scale_x scale_y)) (frames v)"
    by (simp add: list_all_iff)
  have "process_frame e (hd (frames v)) scale_x scale_y = Inr (transform (hd (frames v)))"
    using a t by (cases "frames v") simp_all
  then have first: "process_frame e (hd (frames v)) scale_x scale_y \<noteq> Inr None"
    using a by simp
  from a all first run_completes [of v e scale_x scale_y] obtain s' tt st carved where
    d: "process_video e v scale_x scale_y = Done s' tt st"
    and lp: "loop_post e v scale_x scale_y (prop_frame_count v) 0 (initial_state e v carved) s'"
    by blast
  have "out s' = not_none (map transform (frames v))"
    using loop_post_initial(3) [OF lp] successes_transform [OF t] by simp
  with d show "\<exists>s' tt st. process_video e v scale_x scale_y = Done s' tt st
         \<and> out s' = not_none (map transform (frames v))"
    by blast
next
  assume "\<exists>f \<in> set batch. isl (process_frame e f scale_x scale_y)"
  then obtain f where f: "f \<in> set batch" "isl (process_frame e f scale_x scale_y)"
    by blast
  show "isl (starmap picks (\<lambda>(f, x, y). process_frame e f x y)
               (map (\<lambda>f. (f, scale_x, scale_y)) batch))"
  proof (cases "starmap picks (\<lambda>(f, x, y). process_frame e f x y)
               (map (\<lambda>f. (f, scale_x, scale_y)) batch)")
    case (Inl err)
    then show ?thesis by simp
  next
    case (Inr rs)
    then have "map (\<lambda>f. process_frame e f scale_x scale_y) batch = map Inr rs"
      by (simp add: starmap_Inr_iff o_def)
    from list_all_returned [OF this] f have False
      by (simp add: list_all_iff)
    then show ?thesis ..
  qed
next
  assume "\<exists>f \<in> set (frames v). isl (process_frame e f scale_x scale_y)"
  then have "\<not> list_all (\<lambda>f. \<not> isl (process_frame e f scale_x scale_y)) (frames v)"
    by (simp add: list_all_iff)
  then show "final_state (process_video e v scale_x scale_y) = None"
    by (rule raising_frame_ends_run)
qed

theorem none_is_skipped_witness:
  "process_frame (toy_env []) (toy_frame 1) (Finite 1) (Finite 1) = Inr (Some (toy_frame 1))
   \<and> process_frame (toy_env []) toy_blank (Finite 1) (Finite 1) = Inr None
   \<and> process_frame (toy_env []) (toy_frame 3) (Finite 1) (Finite 1) = Inr (Some (toy_frame 3))
   \<and> isl (process_frame (toy_env []) toy_broken (Finite 1) (Finite 1))
   \<and> (\<exists>rs. starmap [1, 0] (\<lambda>(f, x, y). process_frame (toy_env []) f x y)
              (map (\<lambda>f. (f, Finite 1, Finite 1)) [toy_frame 1, toy_blank, toy_frame 3]) = Inr rs
         \<and> length rs = 3 \<and> rs ! 0 = Some (toy_frame 1) \<and> rs ! 1 = None
         \<and> rs ! 2 = Some (toy_frame 3))
   \<and> (\<exists>s' tt st.
         process_video (toy_env []) (toy_video 3 [toy_frame 1, toy_blank, toy_frame 3]) (Finite 1) (Finite 1)
           = Done s' tt st
         \<and> out s' = [toy_frame 1, toy_frame 3])
   \<and> isl (starmap [1, 0] (\<lambda>(f, x, y). process_frame (toy_env []) f x y)
              (map (\<lambda>f. (f, Finite 1, Finite 1)) [toy_frame 1, toy_broken, toy_frame 3]))
   \<and> final_state
        (process_video (toy_env []) (toy_video 3 [toy_frame 1, toy_broken, toy_frame 3]) (Finite 1) (Finite 1))
       = None"
proof -
  let ?e = "toy_env []"
  let ?t = "\<lambda>f. if pixels f = [] then None else Some f"
  let ?good = "[toy_frame 1, toy_blank, toy_frame 3]"
  let ?bad = "[toy_frame 1, toy_broken, toy_frame 3]"
  have p: "process_frame ?e (toy_frame 1) (Finite 1) (Finite 1) = Inr (Some (toy_frame 1))"
    "process_frame ?e toy_blank (Finite 1) (Finite 1) = Inr None"
    "process_frame ?e (toy_frame 3) (Finite 1) (Finite 1) = Inr (Some (toy_frame 3))"
    "isl (process_frame ?e toy_broken (Finite 1) (Finite 1))"
    by (simp_all add: toy_process_frame toy_process_blank toy_process_broken)
  have px: "pixels (toy_frame n) \<noteq> []" "pixels toy_blank = []" for n
    by (simp_all add: toy_frame_def toy_blank_def)
  have h1: "(\<forall>f \<in> set ?good. process_frame ?e f (Finite 1) (Finite 1) = Inr (?t f))
      \<and> 1 < length ?good \<and> ?t (?good ! 1) = None"
    using p px by simp
  have h2: "path_exists (toy_video 3 ?good) \<and> can_open (toy_video 3 ?good)
      \<and> frames (toy_video 3 ?good) \<noteq> [] \<and> prop_frame_count (toy_video 3 ?good) \<noteq> 0
      \<and> list_all (\<lambda>f. process_frame ?e f (Finite 1) (Finite 1) = Inr (?t f)) (frames (toy_video 3 ?good))
      \<and> ?t (hd (frames (toy_video 3 ?good))) \<noteq> None"
    using p px by simp
  have h3: "\<exists>f \<in> set ?bad. isl (process_frame ?e f (Finite 1) (Finite 1))"
    using p by simp
  have h4: "\<exists>f \<in> set (frames (toy_video 3 ?bad)). isl (process_frame ?e f (Finite 1) (Finite 1))"
    using p by simp
  note good = none_is_skipped [of ?good ?e "Finite 1" "Finite 1" ?t 1 "[1, 0]" "initial_state ?e (toy_video 3 ?good) (toy_frame 1)" "toy_video 3 ?good"]
  note bad = none_is_skipped [of ?bad ?e "Finite 1" "Finite 1" ?t 1 "[1, 0]" "initial_state ?e (toy_video 3 ?bad) (toy_frame 1)" "toy_video 3 ?bad"]
  from good h1 obtain rs where rs:
    "starmap [1, 0] (\<lambda>(f, x, y). process_frame ?e f x y) (map (\<lambda>f. (f, Finite 1, Finite 1)) ?good) = Inr rs"
    "length rs = length ?good" "\<forall>i < length ?good. rs ! i = ?t (?good ! i)"
    by blast
  from rs(3) have "rs ! 0 = ?t (?good ! 0)" "rs ! 1 = ?t (?good ! 1)" "rs ! 2 = ?t (?good ! 2)"
    by simp_all
  then have nth: "rs ! 0 = Some (toy_frame 1)" "rs ! 1 = None" "rs ! 2 = Some (toy_frame 3)"
    using px by simp_all
  have c1: "\<exists>rs. starmap [1, 0] (\<lambda>(f, x, y). process_frame ?e f x y)
              (map (\<lambda>f. (f, Finite 1, Finite 1)) ?good) = Inr rs
         \<and> length rs = 3 \<and> rs ! 0 = Some (toy_frame 1) \<and> rs ! 1 = None
         \<and> rs ! 2 = Some (toy_frame 3)"
    using rs(1,2) nth by simp
  from good h2 obtain s' tt st where
    "process_video ?e (toy_video 3 ?good) (Finite 1) (Finite 1) = Done s' tt st"
    "out s' = not_none (map ?t (frames (toy_video 3 ?good)))"
    by blast
  then have c2: "\<exists>s' tt st. process_video ?e (toy_video 3 ?good) (Finite 1) (Finite 1) = Done s' tt st
         \<and> out s' = [toy_frame 1, toy_frame 3]"
    using px by simp
  from bad h3 have c3: "isl (starmap [1, 0] (\<lambda>(f, x, y). process_frame ?e f x y)
              (map (\<lambda>f. (f, Finite 1, Finite 1)) ?bad))"
    by blast
  from bad h4 have c4: "final_state (process_video ?e (toy_video 3 ?bad) (Finite 1) (Finite 1)) = None"
    by blast
  from p c1 c2 c3 c4 show ?thesis
    by blast
qed


end
